theory Spec2Isabelle
  imports Main "HOL-Library.Word" "HOL-Library.Char_ord" "HOL-Library.Sublist"
begin

section \<open>The IR handed to the backend\<close>

text \<open>
  The code generator talks to LLVM through \<open>llvm::Type\<close>, \<open>llvm::Value\<close> and
  \<open>llvm::IRBuilder\<close>. The model keeps what the repository's code passes to these
  interfaces: the types it asks for, the constants it builds and the instructions it
  asks the builder to create. Pointers are opaque (the pointee given to
  \<open>PointerType::get\<close> is dropped, as in the LLVM releases the driver is written for).
\<close>

datatype llvm_type =
    IntegerTy nat
  | PointerTy
  | StructTy "llvm_type list"
  | VoidTy

definition getInt1Ty :: llvm_type where "getInt1Ty = IntegerTy 1"
definition getInt8Ty :: llvm_type where "getInt8Ty = IntegerTy 8"
definition getInt16Ty :: llvm_type where "getInt16Ty = IntegerTy 16"
definition getInt32Ty :: llvm_type where "getInt32Ty = IntegerTy 32"
definition getInt64Ty :: llvm_type where "getInt64Ty = IntegerTy 64"

fun isIntegerTy :: "llvm_type \<Rightarrow> bool" where
  "isIntegerTy (IntegerTy w) = True"
| "isIntegerTy t = False"

fun isStructTy :: "llvm_type \<Rightarrow> bool" where
  "isStructTy (StructTy fs) = True"
| "isStructTy t = False"

fun getIntegerBitWidth :: "llvm_type \<Rightarrow> nat" where
  "getIntegerBitWidth (IntegerTy w) = w"
| "getIntegerBitWidth t = 0"

text \<open>
  \<open>ConstantInt::get(Ty, V, isSigned)\<close>: the type, the 64-bit payload as the caller
  passed it, and the signedness flag of the request.
\<close>

record ConstantInt =
  ci_type :: llvm_type
  ci_value :: "64 word"
  ci_isSigned :: bool

definition ConstantInt_get :: "llvm_type \<Rightarrow> 64 word \<Rightarrow> bool \<Rightarrow> ConstantInt" where
  "ConstantInt_get ty v isSigned = \<lparr> ci_type = ty, ci_value = v, ci_isSigned = isSigned \<rparr>"

section \<open>Number literals (ast.cpp, NumberExprAST::codegen)\<close>

text \<open>
  \<open>Val\<close> is an \<open>int64_t\<close>. Every comparison of the chain is a signed comparison,
  except the one with \<open>4294967295ULL\<close>, where the usual arithmetic conversions turn
  \<open>Val\<close> into an unsigned 64-bit value first.
\<close>

definition NumberExprAST_IntType :: "64 word \<Rightarrow> llvm_type" where
  "NumberExprAST_IntType Val =
     (if 0 \<le> sint Val \<and> sint Val \<le> 255 then getInt8Ty
      else if - 128 \<le> sint Val \<and> sint Val < 0 then getInt8Ty
      else if 0 \<le> sint Val \<and> sint Val \<le> 65535 then getInt16Ty
      else if - 32768 \<le> sint Val \<and> sint Val < 0 then getInt16Ty
      else if 0 \<le> sint Val \<and> uint Val \<le> 4294967295 then getInt32Ty
      else if - 2147483648 \<le> sint Val \<and> sint Val < 0 then getInt32Ty
      else getInt64Ty)"

definition NumberExprAST_codegen :: "64 word \<Rightarrow> ConstantInt" where
  "NumberExprAST_codegen Val = ConstantInt_get (NumberExprAST_IntType Val) Val True"

section \<open>Tokens (token.h)\<close>

datatype TokenType =
    TOK_EOF
  | TOK_FN
  | TOK_IDENTIFIER
  | TOK_COLON
  | TOK_ARROW
  | TOK_OPEN_BRACE
  | TOK_CLOSE_BRACE
  | TOK_OPEN_PAREN
  | TOK_CLOSE_PAREN
  | TOK_COMMA
  | TOK_RETURN
  | TOK_PLUS
  | TOK_MINUS
  | TOK_SEMI
  | TOK_NUMBER
  | TOK_CONST
  | TOK_VAR
  | TOK_EQUAL
  | TOK_TYPE
  | TOK_IF
  | TOK_ELSE
  | TOK_EQUAL_EQUAL
  | TOK_NOT_EQUAL
  | TOK_LESS
  | TOK_LESS_EQUAL
  | TOK_GREATER
  | TOK_GREATER_EQUAL
  | TOK_TRUE
  | TOK_FALSE
  | TOK_OPEN_BRACKET
  | TOK_CLOSE_BRACKET
  | TOK_STRING_LITERAL
  | TOK_WHILE
  | TOK_FOR
  | TOK_BREAK
  | TOK_CONTINUE
  | TOK_IN
  | TOK_EXTERN
  | TOK_EXPORT

record Token =
  tok_type :: TokenType
  lexeme :: string
  tok_line :: nat

definition mkToken :: "TokenType \<Rightarrow> string \<Rightarrow> nat \<Rightarrow> Token" where
  "mkToken ty lx ln = \<lparr> tok_type = ty, lexeme = lx, tok_line = ln \<rparr>"

section \<open>The scanner (lexer.h, lexer.cpp)\<close>

text \<open>
  The \<open>Lexer\<close> object: the source, the tokens emitted so far, the offset of the next
  byte and the current line. \<open>cerr\<close> is the side channel: every
  \<open>"Unexpected character at line L: c"\<close> written to \<open>std::cerr\<close> is recorded as the
  pair \<open>(L, c)\<close>. The two \<open>int\<close> counters are natural numbers (sources of more than
  2^31 bytes are outside the model).
\<close>

record Lexer =
  source :: string
  tokens :: "Token list"
  current :: nat
  line :: nat
  cerr :: "(nat \<times> char) list"

datatype lex_error = UnterminatedString nat

definition Lexer_new :: "string \<Rightarrow> Lexer" where
  "Lexer_new src = \<lparr> source = src, tokens = [], current = 0, line = 1, cerr = [] \<rparr>"

definition NUL :: char where "NUL = CHR 0x00"
definition NEWLINE :: char where "NEWLINE = CHR 0x0A"
definition DQUOTE :: char where "DQUOTE = CHR 0x22"

definition isAtEnd :: "Lexer \<Rightarrow> bool" where
  "isAtEnd s \<longleftrightarrow> current s \<ge> length (source s)"

text \<open>\<open>source[current++]\<close>; \<open>std::string::operator[]\<close> at the length is the NUL.\<close>

definition advance :: "Lexer \<Rightarrow> char \<times> Lexer" where
  "advance s =
     (if current s < length (source s) then source s ! current s else NUL,
      s\<lparr>current := current s + 1\<rparr>)"

definition peek :: "Lexer \<Rightarrow> char" where
  "peek s = (if isAtEnd s then NUL else source s ! current s)"

definition peekNext :: "Lexer \<Rightarrow> char" where
  "peekNext s =
     (if current s + 1 \<ge> length (source s) then NUL else source s ! (current s + 1))"

definition match :: "char \<Rightarrow> Lexer \<Rightarrow> bool \<times> Lexer" where
  "match expected s =
     (if isAtEnd s \<or> source s ! current s \<noteq> expected then (False, s)
      else (True, s\<lparr>current := current s + 1\<rparr>))"

text \<open>The inner loop of the \<open>'/'\<close> case: a comment runs to the end of the line.\<close>

function skipComment :: "Lexer \<Rightarrow> Lexer" where
  "skipComment s =
     (if peek s \<noteq> NEWLINE \<and> \<not> isAtEnd s then skipComment (snd (advance s)) else s)"
  by pat_completeness auto
termination
  by (relation "measure (\<lambda>s. length (source s) - current s)")
     (auto simp: isAtEnd_def advance_def)

declare skipComment.simps [simp del]

text \<open>The bytes not yet consumed.\<close>

definition rest :: "Lexer \<Rightarrow> string" where
  "rest s = drop (current s) (source s)"

lemma rest_Cons: "\<not> isAtEnd s \<Longrightarrow> rest s = (source s ! current s) # rest (snd (advance s))"
  by (simp add: rest_def isAtEnd_def advance_def Cons_nth_drop_Suc)

lemma rest_Nil: "isAtEnd s \<Longrightarrow> rest s = []"
  by (simp add: rest_def isAtEnd_def)

lemma skipComment_eq:
  "skipComment s = s\<lparr>current := current s + length (takeWhile (\<lambda>c. c \<noteq> NEWLINE) (rest s))\<rparr>"
proof (induction s rule: skipComment.induct)
  case (1 s)
  show ?case
  proof (cases "peek s \<noteq> NEWLINE \<and> \<not> isAtEnd s")
    case True
    then have r: "rest s = (source s ! current s) # rest (snd (advance s))"
      and p: "source s ! current s \<noteq> NEWLINE"
      by (auto simp: rest_Cons peek_def)
    from True have "skipComment s = skipComment (snd (advance s))"
      by (subst skipComment.simps) simp
    also have "\<dots> = (snd (advance s))\<lparr>current := current (snd (advance s)) +
        length (takeWhile (\<lambda>c. c \<noteq> NEWLINE) (rest (snd (advance s))))\<rparr>"
      using 1 True by simp
    finally show ?thesis using r p by (simp add: advance_def)
  next
    case False
    then have "takeWhile (\<lambda>c. c \<noteq> NEWLINE) (rest s) = []"
      by (cases "isAtEnd s") (auto simp: rest_Nil rest_Cons peek_def)
    moreover from False have "skipComment s = s"
      by (subst skipComment.simps) auto
    ultimately show ?thesis by simp
  qed
qed

lemma skipComment_source [simp]: "source (skipComment s) = source s"
  by (simp add: skipComment_eq)

lemma skipComment_progress:
  "peek s \<noteq> NEWLINE \<Longrightarrow> \<not> isAtEnd s \<Longrightarrow> current s < current (skipComment s)"
  by (simp add: skipComment_eq rest_Cons peek_def)

function skipWhitespace :: "Lexer \<Rightarrow> Lexer" where
  "skipWhitespace s =
     (let c = peek s in
      if c = CHR '' '' \<or> c = CHR 0x0D \<or> c = CHR 0x09 then skipWhitespace (snd (advance s))
      else if c = NEWLINE then skipWhitespace (snd (advance (s\<lparr>line := line s + 1\<rparr>)))
      else if c = CHR ''/'' then
        (if peekNext s = CHR ''/'' then skipWhitespace (skipComment s) else s)
      else s)"
  by pat_completeness auto
termination
proof (relation "measure (\<lambda>s. length (source s) - current s)", goal_cases)
  case 1
  show ?case by simp
next
  case (2 s c)
  then show ?case
    by (auto simp: peek_def isAtEnd_def advance_def NUL_def split: if_splits)
next
  case (3 s c)
  then show ?case
    by (auto simp: peek_def isAtEnd_def advance_def NUL_def NEWLINE_def split: if_splits)
next
  case (4 s c)
  then have ne: "\<not> isAtEnd s" and nl: "peek s \<noteq> NEWLINE"
    by (auto simp: peek_def NUL_def NEWLINE_def split: if_splits)
  from skipComment_progress [OF nl ne] ne show ?case
    by (simp add: isAtEnd_def)
qed

declare skipWhitespace.simps [simp del]

definition isDigit :: "char \<Rightarrow> bool" where
  "isDigit c \<longleftrightarrow> c \<ge> CHR ''0'' \<and> c \<le> CHR ''9''"

definition isAlpha :: "char \<Rightarrow> bool" where
  "isAlpha c \<longleftrightarrow>
     (c \<ge> CHR ''a'' \<and> c \<le> CHR ''z'') \<or> (c \<ge> CHR ''A'' \<and> c \<le> CHR ''Z'') \<or> c = CHR ''_''"

definition isAlphaNumeric :: "char \<Rightarrow> bool" where
  "isAlphaNumeric c \<longleftrightarrow> isAlpha c \<or> isDigit c"

definition addToken :: "TokenType \<Rightarrow> string \<Rightarrow> Lexer \<Rightarrow> Lexer" where
  "addToken ty lx s = s\<lparr>tokens := tokens s @ [mkToken ty lx (line s)]\<rparr>"

text \<open>\<open>std::string::substr(pos, n)\<close>, for \<open>pos\<close> within the string.\<close>

definition substr :: "string \<Rightarrow> nat \<Rightarrow> nat \<Rightarrow> string" where
  "substr str pos n = take n (drop pos str)"

lemma isAlphaNumeric_NUL [simp]: "\<not> isAlphaNumeric NUL"
  by (simp add: isAlphaNumeric_def isAlpha_def isDigit_def NUL_def less_eq_char_def)

lemma isDigit_NUL [simp]: "\<not> isDigit NUL"
  by (simp add: isDigit_def NUL_def less_eq_char_def)

text \<open>\<open>while (isAlphaNumeric(peek())) advance();\<close>\<close>

function identifier_loop :: "Lexer \<Rightarrow> Lexer" where
  "identifier_loop s =
     (if isAlphaNumeric (peek s) then identifier_loop (snd (advance s)) else s)"
  by pat_completeness auto
termination
  by (relation "measure (\<lambda>s. length (source s) - current s)")
     (auto simp: peek_def isAtEnd_def advance_def split: if_splits)

declare identifier_loop.simps [simp del]

text \<open>The keyword chain of \<open>Lexer::identifier\<close>, in the order of the source.\<close>

definition identifier_type :: "string \<Rightarrow> TokenType" where
  "identifier_type text =
     (if text = ''fn'' then TOK_FN
      else if text = ''return'' then TOK_RETURN
      else if text = ''const'' then TOK_CONST
      else if text = ''var'' then TOK_VAR
      else if text = ''if'' then TOK_IF
      else if text = ''else'' then TOK_ELSE
      else if text = ''while'' then TOK_WHILE
      else if text = ''for'' then TOK_FOR
      else if text = ''break'' then TOK_BREAK
      else if text = ''continue'' then TOK_CONTINUE
      else if text = ''in'' then TOK_IN
      else if text = ''true'' then TOK_TRUE
      else if text = ''false'' then TOK_FALSE
      else if text = ''extern'' then TOK_EXTERN
      else if text = ''export'' then TOK_EXPORT
      else if text = ''print'' \<or> text = ''println'' \<or> text = ''printf'' then TOK_IDENTIFIER
      else if text = ''u8'' \<or> text = ''u16'' \<or> text = ''u32'' \<or> text = ''i8''
              \<or> text = ''i16'' \<or> text = ''i32'' \<or> text = ''bool'' \<or> text = ''str''
        then TOK_TYPE
      else TOK_IDENTIFIER)"

definition "identifier" :: "Lexer \<Rightarrow> Lexer" where
  "identifier s0 =
     (let start = current s0 - 1;
          s = identifier_loop s0;
          text = substr (source s) start (current s - start)
      in addToken (identifier_type text) text s)"

text \<open>\<open>while (isDigit(peek())) advance();\<close>, shared by both number scanners.\<close>

function digits_loop :: "Lexer \<Rightarrow> Lexer" where
  "digits_loop s = (if isDigit (peek s) then digits_loop (snd (advance s)) else s)"
  by pat_completeness auto
termination
  by (relation "measure (\<lambda>s. length (source s) - current s)")
     (auto simp: peek_def isAtEnd_def advance_def split: if_splits)

declare digits_loop.simps [simp del]

definition number :: "Lexer \<Rightarrow> Lexer" where
  "number s0 =
     (let start = current s0 - 1;
          s = digits_loop s0;
          num = substr (source s) start (current s - start)
      in addToken TOK_NUMBER num s)"

definition negativeNumber :: "Lexer \<Rightarrow> Lexer" where
  "negativeNumber s0 =
     (let start = current s0 - 1;
          s = digits_loop s0;
          num = substr (source s) start (current s - start)
      in addToken TOK_NUMBER num s)"

text \<open>The loop of \<open>Lexer::stringLiteral\<close>: up to the closing quote, counting lines.\<close>

function stringLiteral_loop :: "Lexer \<Rightarrow> Lexer" where
  "stringLiteral_loop s =
     (if peek s \<noteq> DQUOTE \<and> \<not> isAtEnd s
      then stringLiteral_loop
             (snd (advance (if peek s = NEWLINE then s\<lparr>line := line s + 1\<rparr> else s)))
      else s)"
  by pat_completeness auto
termination
  by (relation "measure (\<lambda>s. length (source s) - current s)")
     (auto simp: isAtEnd_def advance_def)

declare stringLiteral_loop.simps [simp del]

definition stringLiteral :: "Lexer \<Rightarrow> lex_error + Lexer" where
  "stringLiteral s0 =
     (let start = current s0;
          s = stringLiteral_loop s0
      in if isAtEnd s then Inl (UnterminatedString (line s))
         else let s' = snd (advance s);
                  val = substr (source s') start (current s' - start - 1)
              in Inr (addToken TOK_STRING_LITERAL val s'))"

definition unexpected_character :: "char \<Rightarrow> Lexer \<Rightarrow> Lexer" where
  "unexpected_character c s = s\<lparr>cerr := cerr s @ [(line s, c)]\<rparr>"

text \<open>
  One turn of the loop of \<open>Lexer::scanTokens\<close>, from \<open>char c = advance();\<close> on: the
  \<open>switch\<close>, in the order of its cases.
\<close>

definition scanToken :: "Lexer \<Rightarrow> lex_error + Lexer" where
  "scanToken s0 =
     (let (c, s) = advance s0 in
      if c = CHR ''('' then Inr (addToken TOK_OPEN_PAREN ''('' s)
      else if c = CHR '')'' then Inr (addToken TOK_CLOSE_PAREN '')'' s)
      else if c = CHR ''{'' then Inr (addToken TOK_OPEN_BRACE ''{'' s)
      else if c = CHR ''}'' then Inr (addToken TOK_CLOSE_BRACE ''}'' s)
      else if c = CHR ''['' then Inr (addToken TOK_OPEN_BRACKET ''['' s)
      else if c = CHR '']'' then Inr (addToken TOK_CLOSE_BRACKET '']'' s)
      else if c = CHR '','' then Inr (addToken TOK_COMMA '','' s)
      else if c = CHR '';'' then Inr (addToken TOK_SEMI '';'' s)
      else if c = CHR '':'' then Inr (addToken TOK_COLON '':'' s)
      else if c = CHR ''+'' then Inr (addToken TOK_PLUS ''+'' s)
      else if c = DQUOTE then stringLiteral s
      else if c = CHR ''='' then
        (case match (CHR ''='') s of
           (True, s') \<Rightarrow> Inr (addToken TOK_EQUAL_EQUAL ''=='' s')
         | (False, s') \<Rightarrow> Inr (addToken TOK_EQUAL ''='' s'))
      else if c = CHR ''!'' then
        (case match (CHR ''='') s of
           (True, s') \<Rightarrow> Inr (addToken TOK_NOT_EQUAL ''!='' s')
         | (False, s') \<Rightarrow> Inr (unexpected_character c s'))
      else if c = CHR ''<'' then
        (case match (CHR ''='') s of
           (True, s') \<Rightarrow> Inr (addToken TOK_LESS_EQUAL ''<='' s')
         | (False, s') \<Rightarrow> Inr (addToken TOK_LESS ''<'' s'))
      else if c = CHR ''>'' then
        (case match (CHR ''='') s of
           (True, s') \<Rightarrow> Inr (addToken TOK_GREATER_EQUAL ''>='' s')
         | (False, s') \<Rightarrow> Inr (addToken TOK_GREATER ''>'' s'))
      else if c = CHR ''-'' then
        (case match (CHR ''>'') s of
           (True, s') \<Rightarrow> Inr (addToken TOK_ARROW ''->'' s')
         | (False, s') \<Rightarrow>
             if isDigit (peek s') then Inr (negativeNumber s')
             else Inr (addToken TOK_MINUS ''-'' s'))
      else if isDigit c then Inr (number s)
      else if isAlpha c then Inr (identifier s)
      else Inr (unexpected_character c s))"

section \<open>What the loops of the scanner compute\<close>

lemma takeWhile_rest_stop:
  "isAtEnd s \<or> \<not> P (source s ! current s) \<Longrightarrow> takeWhile P (rest s) = []"
  by (cases "isAtEnd s") (auto simp: rest_def isAtEnd_def Cons_nth_drop_Suc [symmetric])

lemma takeWhile_rest_step:
  "\<not> isAtEnd s \<Longrightarrow> P (source s ! current s) \<Longrightarrow> current s' = Suc (current s) \<Longrightarrow>
   source s' = source s \<Longrightarrow>
   takeWhile P (rest s) = (source s ! current s) # takeWhile P (rest s')"
  by (simp add: rest_def isAtEnd_def Cons_nth_drop_Suc [symmetric])

lemma identifier_loop_eq:
  "identifier_loop s = s\<lparr>current := current s + length (takeWhile isAlphaNumeric (rest s))\<rparr>"
proof (induction s rule: identifier_loop.induct)
  case (1 s)
  show ?case
  proof (cases "isAlphaNumeric (peek s)")
    case True
    then have ne: "\<not> isAtEnd s" by (auto simp: peek_def)
    with True have p: "isAlphaNumeric (source s ! current s)" by (simp add: peek_def)
    have r: "takeWhile isAlphaNumeric (rest s) =
        (source s ! current s) # takeWhile isAlphaNumeric (rest (snd (advance s)))"
      by (rule takeWhile_rest_step [where P = isAlphaNumeric, OF ne p]) (simp_all add: advance_def)
    from True have "identifier_loop s = identifier_loop (snd (advance s))"
      by (subst identifier_loop.simps) simp
    also have "\<dots> = (snd (advance s))\<lparr>current := current (snd (advance s)) +
        length (takeWhile isAlphaNumeric (rest (snd (advance s))))\<rparr>"
      by (rule 1 [OF True])
    finally show ?thesis unfolding r by (simp add: advance_def)
  next
    case False
    then have "takeWhile isAlphaNumeric (rest s) = []"
      by (intro takeWhile_rest_stop) (auto simp: peek_def)
    moreover from False have "identifier_loop s = s"
      by (subst identifier_loop.simps) simp
    ultimately show ?thesis by simp
  qed
qed


lemma digits_loop_eq:
  "digits_loop s = s\<lparr>current := current s + length (takeWhile isDigit (rest s))\<rparr>"
proof (induction s rule: digits_loop.induct)
  case (1 s)
  show ?case
  proof (cases "isDigit (peek s)")
    case True
    then have ne: "\<not> isAtEnd s" by (auto simp: peek_def)
    with True have p: "isDigit (source s ! current s)" by (simp add: peek_def)
    have r: "takeWhile isDigit (rest s) =
        (source s ! current s) # takeWhile isDigit (rest (snd (advance s)))"
      by (rule takeWhile_rest_step [where P = isDigit, OF ne p]) (simp_all add: advance_def)
    from True have "digits_loop s = digits_loop (snd (advance s))"
      by (subst digits_loop.simps) simp
    also have "\<dots> = (snd (advance s))\<lparr>current := current (snd (advance s)) +
        length (takeWhile isDigit (rest (snd (advance s))))\<rparr>"
      by (rule 1 [OF True])
    finally show ?thesis unfolding r by (simp add: advance_def)
  next
    case False
    then have "takeWhile isDigit (rest s) = []"
      by (intro takeWhile_rest_stop) (auto simp: peek_def)
    moreover from False have "digits_loop s = s"
      by (subst digits_loop.simps) simp
    ultimately show ?thesis by simp
  qed
qed

definition count_newlines :: "string \<Rightarrow> nat" where
  "count_newlines cs = length (filter (\<lambda>c. c = NEWLINE) cs)"

lemma stringLiteral_loop_eq:
  "stringLiteral_loop s =
     s\<lparr>current := current s + length (takeWhile (\<lambda>c. c \<noteq> DQUOTE) (rest s)),
       line := line s + count_newlines (takeWhile (\<lambda>c. c \<noteq> DQUOTE) (rest s))\<rparr>"
proof (induction s rule: stringLiteral_loop.induct)
  case (1 s)
  show ?case
  proof (cases "peek s \<noteq> DQUOTE \<and> \<not> isAtEnd s")
    case True
    let ?s1 = "snd (advance (if peek s = NEWLINE then s\<lparr>line := line s + 1\<rparr> else s))"
    from True have ne: "\<not> isAtEnd s" and p: "source s ! current s \<noteq> DQUOTE"
      and pk: "peek s = source s ! current s"
      by (auto simp: peek_def)
    have r: "takeWhile (\<lambda>c. c \<noteq> DQUOTE) (rest s) =
        (source s ! current s) # takeWhile (\<lambda>c. c \<noteq> DQUOTE) (rest ?s1)"
      by (rule takeWhile_rest_step [where P = "\<lambda>c. c \<noteq> DQUOTE", OF ne p])
         (simp_all add: advance_def)
    have "stringLiteral_loop s = stringLiteral_loop ?s1"
      by (subst stringLiteral_loop.simps) (simp only: True simp_thms if_True)
    also have "\<dots> =
       ?s1\<lparr>current := current ?s1 + length (takeWhile (\<lambda>c. c \<noteq> DQUOTE) (rest ?s1)),
          line := line ?s1 + count_newlines (takeWhile (\<lambda>c. c \<noteq> DQUOTE) (rest ?s1))\<rparr>"
      by (rule 1 [OF True])
    finally have e: "stringLiteral_loop s =
       ?s1\<lparr>current := current ?s1 + length (takeWhile (\<lambda>c. c \<noteq> DQUOTE) (rest ?s1)),
          line := line ?s1 + count_newlines (takeWhile (\<lambda>c. c \<noteq> DQUOTE) (rest ?s1))\<rparr>" .
    show ?thesis
    proof (cases "source s ! current s = NEWLINE")
      case nl: True
      show ?thesis unfolding e r using nl pk
        by (simp add: advance_def count_newlines_def)
    next
      case nl: False
      show ?thesis unfolding e r using nl pk
        by (simp add: advance_def count_newlines_def)
    qed
  next
    case False
    then have "takeWhile (\<lambda>c. c \<noteq> DQUOTE) (rest s) = []"
      by (intro takeWhile_rest_stop) (auto simp: peek_def split: if_splits)
    moreover from False have "stringLiteral_loop s = s"
      by (subst stringLiteral_loop.simps) auto
    ultimately show ?thesis by (simp add: count_newlines_def)
  qed
qed

text \<open>
  The line counter counts the newlines consumed so far: the invariant of every loop of
  the scanner.
\<close>

definition line_ok :: "Lexer \<Rightarrow> bool" where
  "line_ok s \<longleftrightarrow> current s \<le> length (source s)
      \<and> line s = 1 + count_newlines (take (current s) (source s))"

lemma take_add_rest:
  "take (current s + n) (source s) = take (current s) (source s) @ take n (rest s)"
  by (simp add: rest_def take_add)

lemma takeWhile_le_rest: "current s \<le> length (source s) \<Longrightarrow>
   current s + length (takeWhile P (rest s)) \<le> length (source s)"
proof -
  assume "current s \<le> length (source s)"
  moreover have "length (takeWhile P (rest s)) \<le> length (rest s)"
    by (rule length_takeWhile_le)
  ultimately show ?thesis by (simp add: rest_def)
qed

lemma take_length_takeWhile: "take (length (takeWhile P xs)) xs = takeWhile P xs"
  by (induction xs) auto

lemma count_newlines_append [simp]:
  "count_newlines (xs @ ys) = count_newlines xs + count_newlines ys"
  by (simp add: count_newlines_def)

lemma count_newlines_none: "NEWLINE \<notin> set xs \<Longrightarrow> count_newlines xs = 0"
  by (induction xs) (auto simp: count_newlines_def)

lemma line_ok_stringLiteral_loop: "line_ok s \<Longrightarrow> line_ok (stringLiteral_loop s)"
  by (simp add: line_ok_def stringLiteral_loop_eq take_add_rest takeWhile_le_rest
      take_length_takeWhile)

lemma line_ok_skipComment: "line_ok s \<Longrightarrow> line_ok (skipComment s)"
proof -
  have "NEWLINE \<notin> set (takeWhile (\<lambda>c. c \<noteq> NEWLINE) (rest s))"
    by (auto dest: set_takeWhileD)
  then show "line_ok s \<Longrightarrow> line_ok (skipComment s)"
    by (simp add: line_ok_def skipComment_eq take_add_rest takeWhile_le_rest
      take_length_takeWhile count_newlines_none)
qed

lemma isDigit_not_NEWLINE: "isDigit c \<Longrightarrow> c \<noteq> NEWLINE"
  by (auto simp: isDigit_def NEWLINE_def less_eq_char_def)

lemma isAlphaNumeric_not_NEWLINE: "isAlphaNumeric c \<Longrightarrow> c \<noteq> NEWLINE"
  by (auto simp: isAlphaNumeric_def isAlpha_def isDigit_def NEWLINE_def less_eq_char_def)

lemma line_ok_digits_loop: "line_ok s \<Longrightarrow> line_ok (digits_loop s)"
proof -
  have "NEWLINE \<notin> set (takeWhile isDigit (rest s))"
    by (auto dest: set_takeWhileD isDigit_not_NEWLINE)
  then show "line_ok s \<Longrightarrow> line_ok (digits_loop s)"
    by (simp add: line_ok_def digits_loop_eq take_add_rest takeWhile_le_rest
      take_length_takeWhile count_newlines_none)
qed

lemma line_ok_identifier_loop: "line_ok s \<Longrightarrow> line_ok (identifier_loop s)"
proof -
  have "NEWLINE \<notin> set (takeWhile isAlphaNumeric (rest s))"
    by (auto dest: set_takeWhileD isAlphaNumeric_not_NEWLINE)
  then show "line_ok s \<Longrightarrow> line_ok (identifier_loop s)"
    by (simp add: line_ok_def identifier_loop_eq take_add_rest takeWhile_le_rest
      take_length_takeWhile count_newlines_none)
qed

lemma line_ok_advance:
  "line_ok s \<Longrightarrow> \<not> isAtEnd s \<Longrightarrow> peek s \<noteq> NEWLINE \<Longrightarrow> line_ok (snd (advance s))"
  by (simp add: line_ok_def advance_def isAtEnd_def peek_def take_Suc_conv_app_nth
      count_newlines_def)

lemma line_ok_advance_newline:
  "line_ok s \<Longrightarrow> \<not> isAtEnd s \<Longrightarrow> peek s = NEWLINE \<Longrightarrow>
   line_ok (snd (advance (s\<lparr>line := line s + 1\<rparr>)))"
  by (simp add: line_ok_def advance_def isAtEnd_def peek_def take_Suc_conv_app_nth
      count_newlines_def)

text \<open>Skipping white space and comments emits nothing and never moves backwards.\<close>

definition same_output :: "Lexer \<Rightarrow> Lexer \<Rightarrow> bool" where
  "same_output s s' \<longleftrightarrow> source s' = source s \<and> tokens s' = tokens s \<and> cerr s' = cerr s
      \<and> current s \<le> current s'"

lemma NEWLINE_neq [simp]:
  "NEWLINE \<noteq> CHR '' ''" "NEWLINE \<noteq> CHR 0x0D" "NEWLINE \<noteq> CHR 0x09"
  "NEWLINE \<noteq> CHR ''/''" "NEWLINE \<noteq> DQUOTE" "NEWLINE \<noteq> NUL"
  by (simp_all add: NEWLINE_def DQUOTE_def NUL_def)

lemma skipWhitespace_inv:
  "same_output s (skipWhitespace s) \<and> (line_ok s \<longrightarrow> line_ok (skipWhitespace s))"
proof (induction s rule: skipWhitespace.induct)
  case (1 s)
  let ?c = "peek s"
  let ?ws = "?c = CHR '' '' \<or> ?c = CHR 0x0D \<or> ?c = CHR 0x09"
  consider (ws) "?ws"
    | (nl) "\<not> ?ws" "?c = NEWLINE"
    | (cm) "\<not> ?ws" "?c \<noteq> NEWLINE" "?c = CHR ''/''" "peekNext s = CHR ''/''"
    | (stop) "\<not> ?ws" "?c \<noteq> NEWLINE" "\<not> (?c = CHR ''/'' \<and> peekNext s = CHR ''/'')"
    by blast
  then show ?case
  proof cases
    case ws
    have eq: "skipWhitespace s = skipWhitespace (snd (advance s))"
      by (subst skipWhitespace.simps) (use ws in \<open>simp add: Let_def\<close>)
    from ws have ne: "\<not> isAtEnd s" and nn: "peek s \<noteq> NEWLINE"
      by (auto simp: peek_def NUL_def NEWLINE_def split: if_splits)
    have ih: "same_output (snd (advance s)) (skipWhitespace (snd (advance s))) \<and>
       (line_ok (snd (advance s)) \<longrightarrow> line_ok (skipWhitespace (snd (advance s))))"
      by (rule 1(1) [OF refl ws])
    have so: "same_output s (snd (advance s))"
      by (simp add: same_output_def advance_def)
    from ih so line_ok_advance [OF _ ne nn] show ?thesis
      unfolding eq by (auto simp: same_output_def)
  next
    case nl
    let ?s1 = "snd (advance (s\<lparr>line := line s + 1\<rparr>))"
    have eq: "skipWhitespace s = skipWhitespace ?s1"
      by (subst skipWhitespace.simps) (simp add: Let_def nl)
    from nl have ne: "\<not> isAtEnd s"
      by (auto simp: peek_def NUL_def NEWLINE_def split: if_splits)
    have ih: "same_output ?s1 (skipWhitespace ?s1) \<and>
       (line_ok ?s1 \<longrightarrow> line_ok (skipWhitespace ?s1))"
      by (rule 1(2) [OF refl nl])
    have so: "same_output s ?s1"
      by (simp add: same_output_def advance_def)
    from ih so line_ok_advance_newline [OF _ ne nl(2)] show ?thesis
      unfolding eq by (auto simp: same_output_def)
  next
    case cm
    have eq: "skipWhitespace s = skipWhitespace (skipComment s)"
      by (subst skipWhitespace.simps) (use cm in \<open>simp add: Let_def\<close>)
    have ih: "same_output (skipComment s) (skipWhitespace (skipComment s)) \<and>
       (line_ok (skipComment s) \<longrightarrow> line_ok (skipWhitespace (skipComment s)))"
      by (rule 1(3) [OF refl cm(1) cm(2) cm(3) cm(4)])
    have so: "same_output s (skipComment s)"
      by (simp add: same_output_def skipComment_eq)
    from ih so line_ok_skipComment [of s] show ?thesis
      unfolding eq by (auto simp: same_output_def)
  next
    case stop
    have eq: "skipWhitespace s = s"
      by (subst skipWhitespace.simps) (use stop in \<open>auto simp: Let_def\<close>)
    show ?thesis unfolding eq by (simp add: same_output_def)
  qed
qed

lemma skipWhitespace_stop: "peek (skipWhitespace s) \<noteq> NEWLINE"
proof (induction s rule: skipWhitespace.induct)
  case (1 s)
  let ?c = "peek s"
  let ?ws = "?c = CHR '' '' \<or> ?c = CHR 0x0D \<or> ?c = CHR 0x09"
  consider (ws) "?ws"
    | (nl) "\<not> ?ws" "?c = NEWLINE"
    | (cm) "\<not> ?ws" "?c \<noteq> NEWLINE" "?c = CHR ''/''" "peekNext s = CHR ''/''"
    | (stop) "\<not> ?ws" "?c \<noteq> NEWLINE" "\<not> (?c = CHR ''/'' \<and> peekNext s = CHR ''/'')"
    by blast
  then show ?case
  proof cases
    case ws
    have eq: "skipWhitespace s = skipWhitespace (snd (advance s))"
      by (subst skipWhitespace.simps) (use ws in \<open>simp add: Let_def\<close>)
    show ?thesis unfolding eq by (rule 1(1) [OF refl ws])
  next
    case nl
    have eq: "skipWhitespace s = skipWhitespace (snd (advance (s\<lparr>line := line s + 1\<rparr>)))"
      by (subst skipWhitespace.simps) (simp add: Let_def nl)
    show ?thesis unfolding eq by (rule 1(2) [OF refl nl])
  next
    case cm
    have eq: "skipWhitespace s = skipWhitespace (skipComment s)"
      by (subst skipWhitespace.simps) (use cm in \<open>simp add: Let_def\<close>)
    show ?thesis unfolding eq by (rule 1(3) [OF refl cm(1) cm(2) cm(3) cm(4)])
  next
    case stop
    have eq: "skipWhitespace s = s"
      by (subst skipWhitespace.simps) (use stop in \<open>auto simp: Let_def\<close>)
    show ?thesis unfolding eq by (rule stop(2))
  qed
qed

text \<open>
  One token, between the offsets \<open>a\<close> (its first byte) and \<open>b\<close> (just after its last).
\<close>

definition tok_at :: "string \<Rightarrow> Token \<Rightarrow> nat \<Rightarrow> nat \<Rightarrow> bool" where
  "tok_at src t a b \<longleftrightarrow>
     a < b \<and> b \<le> length src \<and> tok_type t \<noteq> TOK_EOF \<and>
     tok_line t = 1 + count_newlines (take b src) \<and>
     (if tok_type t = TOK_STRING_LITERAL
      then a + 2 \<le> b \<and> src ! a = DQUOTE \<and> src ! (b - 1) = DQUOTE \<and>
           lexeme t = substr src (a + 1) (b - a - 2) \<and> DQUOTE \<notin> set (lexeme t) \<and>
           tok_line t = 1 + count_newlines (take a src) + count_newlines (lexeme t)
      else lexeme t = substr src a (b - a) \<and>
           tok_line t = 1 + count_newlines (take a src))"

definition step_ok :: "Lexer \<Rightarrow> Lexer \<Rightarrow> bool" where
  "step_ok s s' \<longleftrightarrow>
     source s' = source s \<and> line_ok s' \<and> current s < current s' \<and>
     ((tokens s' = tokens s \<and> cerr s' = cerr s @ [(line s, source s ! current s)]) \<or>
      (\<exists>t. tokens s' = tokens s @ [t] \<and> cerr s' = cerr s \<and>
           tok_at (source s) t (current s) (current s')))"

lemma count_newlines_take_mono:
  assumes "a \<le> b" and "NEWLINE \<notin> set (substr src a (b - a))"
  shows "count_newlines (take b src) = count_newlines (take a src)"
proof -
  from assms(1) have "take b src = take a src @ take (b - a) (drop a src)"
    by (metis le_add_diff_inverse take_add)
  with assms(2) show ?thesis
    by (simp add: substr_def count_newlines_none)
qed

lemma emit_token_ok:
  assumes lo: "line_ok s"
    and s1: "source s1 = source s" "tokens s1 = tokens s" "cerr s1 = cerr s" "line s1 = line s"
    and cur: "current s < current s1" "current s1 \<le> length (source s)"
    and nonl: "NEWLINE \<notin> set (substr (source s) (current s) (current s1 - current s))"
    and lx: "lx = substr (source s) (current s) (current s1 - current s)"
    and ty: "ty \<noteq> TOK_EOF" "ty \<noteq> TOK_STRING_LITERAL"
  shows "step_ok s (addToken ty lx s1)"
proof -
  have c: "count_newlines (take (current s1) (source s)) = count_newlines (take (current s) (source s))"
    using cur(1) nonl by (intro count_newlines_take_mono) simp_all
  from lo have l: "line s = 1 + count_newlines (take (current s) (source s))"
    by (simp add: line_ok_def)
  have lo1: "line_ok (addToken ty lx s1)"
    using s1 cur c l by (simp add: line_ok_def addToken_def)
  have "tok_at (source s) (mkToken ty lx (line s1)) (current s) (current s1)"
    using s1 cur c l ty lx by (simp add: tok_at_def mkToken_def)
  then show ?thesis
    using lo1 s1 cur by (simp add: step_ok_def addToken_def)
qed

lemma substr_1: "a < length src \<Longrightarrow> substr src a (Suc 0) = [src ! a]"
  by (simp add: substr_def take_Suc_conv_app_nth [where i = 0] Cons_nth_drop_Suc [symmetric])

lemma substr_2: "Suc a < length src \<Longrightarrow> substr src a 2 = [src ! a, src ! Suc a]"
  by (simp add: substr_def numeral_2_eq_2 Cons_nth_drop_Suc [symmetric])

lemma substr_Cons: "a < length src \<Longrightarrow> substr src a (Suc n) = src ! a # substr src (Suc a) n"
  by (simp add: substr_def Cons_nth_drop_Suc [symmetric])

lemma step_single:
  assumes "line_ok s" "\<not> isAtEnd s" "source s ! current s = ch" "ch \<noteq> NEWLINE"
    "ty \<noteq> TOK_EOF" "ty \<noteq> TOK_STRING_LITERAL"
  shows "step_ok s (addToken ty [ch] (s\<lparr>current := current s + 1\<rparr>))"
  using assms by (intro emit_token_ok) (simp_all add: isAtEnd_def substr_1)

lemma match_cases:
  "match e s = (if \<not> isAtEnd s \<and> source s ! current s = e
                then (True, s\<lparr>current := current s + 1\<rparr>) else (False, s))"
  by (simp add: match_def)

lemma step_double:
  assumes "line_ok s" "\<not> isAtEnd s" "source s ! current s = ch" "ch \<noteq> NEWLINE" "e \<noteq> NEWLINE"
    "ty \<noteq> TOK_EOF" "ty \<noteq> TOK_STRING_LITERAL"
    "match e (s\<lparr>current := current s + 1\<rparr>) = (True, s2)"
  shows "step_ok s (addToken ty [ch, e] s2)"
proof -
  from assms(8) have s2: "s2 = s\<lparr>current := current s + 2\<rparr>" and ne: "Suc (current s) < length (source s)"
    and e: "source s ! Suc (current s) = e"
    by (auto simp: match_cases isAtEnd_def split: if_splits)
  show ?thesis unfolding s2
    using assms(1-7) ne e by (intro emit_token_ok) (simp_all add: isAtEnd_def substr_2)
qed

lemma step_unexpected:
  assumes "line_ok s" "\<not> isAtEnd s" "source s ! current s \<noteq> NEWLINE"
  shows "step_ok s (unexpected_character (source s ! current s) (s\<lparr>current := current s + 1\<rparr>))"
  using assms line_ok_advance [of s]
  by (simp add: step_ok_def unexpected_character_def advance_def peek_def line_ok_def)

lemma takeWhile_substr: "takeWhile P (drop a src) = substr src a (length (takeWhile P (drop a src)))"
  by (simp add: substr_def take_length_takeWhile)

lemma step_run:
  assumes lo: "line_ok s" and ne: "\<not> isAtEnd s"
    and c: "source s ! current s \<noteq> NEWLINE"
    and P: "\<And>x. P x \<Longrightarrow> x \<noteq> NEWLINE"
    and ty: "ty \<noteq> TOK_EOF" "ty \<noteq> TOK_STRING_LITERAL"
    and s1: "s1 = s\<lparr>current := current s + 1 + length (takeWhile P (drop (Suc (current s)) (source s)))\<rparr>"
  shows "step_ok s (addToken ty (substr (source s1) (current s) (current s1 - current s)) s1)"
proof -
  let ?a = "current s" and ?src = "source s"
  let ?tw = "takeWhile P (drop (Suc ?a) ?src)"
  from ne have a: "?a < length ?src" by (simp add: isAtEnd_def)
  have len: "length ?tw \<le> length ?src - Suc ?a"
    using length_takeWhile_le [of P "drop (Suc ?a) ?src"] by simp
  have sub: "substr ?src ?a (Suc (length ?tw)) = ?src ! ?a # ?tw"
    using a by (simp add: substr_Cons) (simp add: substr_def take_length_takeWhile)
  have nonl: "NEWLINE \<notin> set (?src ! ?a # ?tw)"
    using c P by (auto dest: set_takeWhileD)
  show ?thesis
    using lo a len sub nonl ty unfolding s1
    by (intro emit_token_ok) simp_all
qed

lemma step_number:
  assumes "line_ok s" "\<not> isAtEnd s" "source s ! current s \<noteq> NEWLINE"
  shows "step_ok s (number (s\<lparr>current := current s + 1\<rparr>))"
    and "step_ok s (negativeNumber (s\<lparr>current := current s + 1\<rparr>))"
  using step_run [OF assms, where P = isDigit and ty = TOK_NUMBER, OF isDigit_not_NEWLINE _ _ refl]
  by (simp_all add: number_def negativeNumber_def Let_def digits_loop_eq rest_def)

lemma identifier_type_neq:
  "identifier_type text \<noteq> TOK_EOF" "identifier_type text \<noteq> TOK_STRING_LITERAL"
  by (simp_all add: identifier_type_def)

lemma step_identifier:
  assumes "line_ok s" "\<not> isAtEnd s" "source s ! current s \<noteq> NEWLINE"
  shows "step_ok s (identifier (s\<lparr>current := current s + 1\<rparr>))"
proof -
  let ?s1 = "s\<lparr>current := current s + 1 +
     length (takeWhile isAlphaNumeric (drop (Suc (current s)) (source s)))\<rparr>"
  let ?text = "substr (source ?s1) (current s) (current ?s1 - current s)"
  have "step_ok s (addToken (identifier_type ?text) ?text ?s1)"
    by (rule step_run [OF assms, where P = isAlphaNumeric])
       (simp_all add: isAlphaNumeric_not_NEWLINE identifier_type_neq)
  then show ?thesis
    by (simp add: identifier_def Let_def identifier_loop_eq rest_def)
qed

lemma takeWhile_all_iff: "length (takeWhile P xs) = length xs \<longleftrightarrow> (\<forall>x\<in>set xs. P x)"
proof
  assume "length (takeWhile P xs) = length xs"
  then have "takeWhile P xs = xs"
    by (metis append_eq_conv_conj takeWhile_dropWhile_id take_all order_refl)
  then show "\<forall>x\<in>set xs. P x" by (metis set_takeWhileD)
next
  assume "\<forall>x\<in>set xs. P x"
  then have "takeWhile P xs = xs" by (simp add: takeWhile_eq_all_conv)
  then show "length (takeWhile P xs) = length xs" by (rule arg_cong)
qed

lemma take_split3:
  assumes "a < length xs" and "n < length (drop (Suc a) xs)"
  shows "take (a + 1 + n + 1) xs =
         take a xs @ [xs ! a] @ take n (drop (Suc a) xs) @ [drop (Suc a) xs ! n]"
proof -
  from assms have m: "Suc a + n < length xs" by simp
  have "take (a + 1 + n + 1) xs = take (Suc (Suc a + n)) xs" by simp
  also have "\<dots> = take (Suc a + n) xs @ [xs ! (Suc a + n)]"
    using m by (rule take_Suc_conv_app_nth)
  also have "take (Suc a + n) xs = take (Suc a) xs @ take n (drop (Suc a) xs)"
    by (rule take_add)
  also have "take (Suc a) xs = take a xs @ [xs ! a]"
    using assms(1) by (rule take_Suc_conv_app_nth)
  also have "xs ! (Suc a + n) = drop (Suc a) xs ! n"
    using m by simp
  finally show ?thesis by simp
qed

lemma stringLiteral_eq:
  "stringLiteral s0 =
     (let body = takeWhile (\<lambda>c. c \<noteq> DQUOTE) (rest s0) in
      if DQUOTE \<in> set (rest s0)
      then Inr (s0\<lparr>tokens := tokens s0 @
                     [mkToken TOK_STRING_LITERAL body (line s0 + count_newlines body)],
                   current := current s0 + length body + 1,
                   line := line s0 + count_newlines body\<rparr>)
      else Inl (UnterminatedString (line s0 + count_newlines (rest s0))))"
proof -
  let ?body = "takeWhile (\<lambda>c. c \<noteq> DQUOTE) (rest s0)"
  let ?s = "stringLiteral_loop s0"
  have s: "?s = s0\<lparr>current := current s0 + length ?body,
                    line := line s0 + count_newlines ?body\<rparr>"
    by (rule stringLiteral_loop_eq)
  have le: "length ?body \<le> length (rest s0)" by (rule length_takeWhile_le)
  have lr: "length (rest s0) = length (source s0) - current s0" by (simp add: rest_def)
  show ?thesis
  proof (cases "DQUOTE \<in> set (rest s0)")
    case True
    then have "length ?body \<noteq> length (rest s0)"
      using takeWhile_all_iff [of "\<lambda>c. c \<noteq> DQUOTE" "rest s0"] by blast
    with le lr have lt: "current s0 + length ?body < length (source s0)" by simp
    then have ne: "\<not> isAtEnd ?s" unfolding s by (simp add: isAtEnd_def)
    have "substr (source s0) (current s0) (length ?body) = ?body"
      by (simp add: substr_def rest_def [symmetric] take_length_takeWhile)
    with True ne show ?thesis
      unfolding stringLiteral_def Let_def s
      by (simp add: advance_def addToken_def isAtEnd_def)
  next
    case False
    then have b: "?body = rest s0"
      by (auto simp: takeWhile_eq_all_conv)
    then have "length ?body = length (rest s0)" by (rule arg_cong)
    then have "isAtEnd ?s" unfolding s
      by (simp add: isAtEnd_def lr)
    moreover have "count_newlines ?body = count_newlines (rest s0)"
      using b by (rule arg_cong)
    ultimately show ?thesis
      using False unfolding stringLiteral_def Let_def s by simp
  qed
qed

lemma step_string:
  assumes lo: "line_ok s" and ne: "\<not> isAtEnd s" and q: "source s ! current s = DQUOTE"
    and r: "stringLiteral (s\<lparr>current := current s + 1\<rparr>) = Inr s'"
  shows "step_ok s s'"
proof -
  let ?a = "current s" and ?src = "source s"
  let ?s0 = "s\<lparr>current := current s + 1\<rparr>"
  let ?after = "drop (Suc ?a) ?src"
  let ?body = "takeWhile (\<lambda>c. c \<noteq> DQUOTE) ?after"
  have rest: "rest ?s0 = ?after" by (simp add: rest_def)
  from r have inq: "DQUOTE \<in> set ?after"
    and s': "s' = s\<lparr>tokens := tokens s @
                     [mkToken TOK_STRING_LITERAL ?body (line s + count_newlines ?body)],
                   current := ?a + 1 + length ?body + 1,
                   line := line s + count_newlines ?body\<rparr>"
    by (auto simp: stringLiteral_eq rest_def Let_def split: if_splits)
  from ne have a: "?a < length ?src" by (simp add: isAtEnd_def)
  from inq have "length ?body \<noteq> length ?after"
    using takeWhile_all_iff [of "\<lambda>c. c \<noteq> DQUOTE" ?after] by blast
  with length_takeWhile_le [of "\<lambda>c. c \<noteq> DQUOTE" ?after]
  have lt: "length ?body < length ?after" by simp
  then have b: "?a + 1 + length ?body < length ?src" by simp
  have closing: "?after ! length ?body = DQUOTE"
    using nth_length_takeWhile [OF lt] by simp
  then have cl: "?src ! (?a + 1 + length ?body) = DQUOTE"
    using b by simp
  have bodysub: "substr ?src (Suc ?a) (length ?body) = ?body"
    by (simp add: substr_def take_length_takeWhile)
  have noq: "DQUOTE \<notin> set ?body" by (auto dest: set_takeWhileD)
  have "take (?a + 1 + length ?body + 1) ?src =
        take ?a ?src @ [?src ! ?a] @ take (length ?body) ?after @ [?after ! length ?body]"
    using a lt by (rule take_split3)
  then have tk: "take (?a + 1 + length ?body + 1) ?src =
        take ?a ?src @ [DQUOTE] @ ?body @ [DQUOTE]"
    using q closing by (simp add: take_length_takeWhile)
  have cnt: "count_newlines (take (?a + 1 + length ?body + 1) ?src) =
        count_newlines (take ?a ?src) + count_newlines ?body"
    unfolding tk by (simp add: count_newlines_def DQUOTE_def NEWLINE_def)
  from lo have l: "line s = 1 + count_newlines (take ?a ?src)"
    by (simp add: line_ok_def)
  have lo': "line_ok s'"
    unfolding s' using b cnt l by (simp add: line_ok_def)
  have "tok_at ?src (mkToken TOK_STRING_LITERAL ?body (line s + count_newlines ?body))
          ?a (?a + 1 + length ?body + 1)"
    using b q cl bodysub noq cnt l by (simp add: tok_at_def mkToken_def)
  with lo' show ?thesis unfolding s' by (simp add: step_ok_def)
qed

lemma scanToken_step:
  assumes lo: "line_ok s" and ne: "\<not> isAtEnd s" and nn: "source s ! current s \<noteq> NEWLINE"
  shows "case scanToken s of
           Inl e \<Rightarrow> source s ! current s = DQUOTE
                     \<and> DQUOTE \<notin> set (drop (Suc (current s)) (source s))
         | Inr s' \<Rightarrow> step_ok s s'"
proof -
  let ?c = "source s ! current s"
  let ?s1 = "s\<lparr>current := Suc (current s)\<rparr>"
  have adv: "advance s = (?c, ?s1)"
    using ne by (simp add: advance_def isAtEnd_def)
  have single: "\<And>ty ch. ?c = ch \<Longrightarrow> ty \<noteq> TOK_EOF \<Longrightarrow> ty \<noteq> TOK_STRING_LITERAL
      \<Longrightarrow> step_ok s (addToken ty [ch] ?s1)"
    using lo ne nn step_single [of s] by auto
  have double: "\<And>ty ch e s2. ?c = ch \<Longrightarrow> e \<noteq> NEWLINE \<Longrightarrow> ty \<noteq> TOK_EOF
      \<Longrightarrow> ty \<noteq> TOK_STRING_LITERAL \<Longrightarrow> match e ?s1 = (True, s2)
      \<Longrightarrow> step_ok s (addToken ty [ch, e] s2)"
    using lo ne nn step_double [of s] by auto
  have mfalse: "\<And>e s2. match e ?s1 = (False, s2) \<Longrightarrow> s2 = ?s1"
    by (auto simp: match_cases split: if_splits)
  have num: "step_ok s (number ?s1)" "step_ok s (negativeNumber ?s1)"
    using step_number [OF lo ne nn] by simp_all
  have ident: "step_ok s (identifier ?s1)"
    using step_identifier [OF lo ne nn] by simp
  have unexp: "\<And>ch. ?c = ch \<Longrightarrow> step_ok s (unexpected_character ch ?s1)"
    using step_unexpected [OF lo ne nn] by auto
  have str: "\<And>s'. ?c = DQUOTE \<Longrightarrow> stringLiteral ?s1 = Inr s' \<Longrightarrow> step_ok s s'"
    using step_string [OF lo ne] by simp
  have strerr: "\<And>e. stringLiteral ?s1 = Inl e \<Longrightarrow> DQUOTE \<notin> set (drop (Suc (current s)) (source s))"
    by (auto simp: stringLiteral_eq Let_def rest_def split: if_splits)
  have eq: "CHR ''='' \<noteq> NEWLINE" "CHR ''>'' \<noteq> NEWLINE" by (simp_all add: NEWLINE_def)
  show ?thesis
  proof (cases "scanToken s")
    case (Inl e)
    then have "?c = DQUOTE \<and> stringLiteral ?s1 = Inl e"
      unfolding scanToken_def adv Let_def prod.case
      by (simp split: if_splits prod.splits bool.splits)
    with strerr Inl show ?thesis by auto
  next
    case (Inr s')
    have "step_ok s s'"
      using Inr unfolding scanToken_def adv Let_def prod.case
      by (auto split: if_splits prod.splits bool.splits simp: eq
               intro!: single double num ident unexp intro: str dest!: mfalse)
    with Inr show ?thesis by simp
  qed
qed

lemma scanToken_progress:
  assumes "scanToken s = Inr s'"
  shows "source s' = source s \<and> current s < current s'"
proof -
  have "source s' = source s \<and> Suc (current s) \<le> current s'"
    using assms unfolding scanToken_def advance_def Let_def prod.case
    by (auto simp: addToken_def match_cases number_def negativeNumber_def identifier_def
          digits_loop_eq identifier_loop_eq stringLiteral_eq unexpected_character_def Let_def
        split: if_splits)
  then show ?thesis by simp
qed

section \<open>The scanning loop (Lexer::scanTokens)\<close>

function scanLoop :: "Lexer \<Rightarrow> lex_error + Lexer" where
  "scanLoop s =
     (if \<not> isAtEnd s then
        (let s1 = skipWhitespace s in
         if isAtEnd s1 then Inr s1
         else case scanToken s1 of
                Inl e \<Rightarrow> Inl e
              | Inr s2 \<Rightarrow> scanLoop s2)
      else Inr s)"
  by pat_completeness auto
termination
proof (relation "measure (\<lambda>s. length (source s) - current s)", goal_cases)
  case 1
  show ?case by simp
next
  case (2 s s1 s2)
  from skipWhitespace_inv [of s] 2(2) have "source s1 = source s" "current s \<le> current s1"
    by (simp_all add: same_output_def)
  moreover from scanToken_progress [OF 2(4)]
  have "source s2 = source s1" "current s1 < current s2" by simp_all
  ultimately show ?case using 2(1) by (simp add: isAtEnd_def)
qed

declare scanLoop.simps [simp del]

text \<open>
  \<open>Lexer::scanTokens\<close>: the loop, then the end-of-input token with the current line. The
  vector the method returns is the \<open>tokens\<close> field of the resulting state.
\<close>

definition scanTokens :: "Lexer \<Rightarrow> lex_error + Lexer" where
  "scanTokens s =
     (case scanLoop s of
        Inl e \<Rightarrow> Inl e
      | Inr s' \<Rightarrow> Inr (s'\<lparr>tokens := tokens s' @ [mkToken TOK_EOF [] (line s')]\<rparr>))"

text \<open>\<open>Lexer lexer(source); lexer.scanTokens()\<close>, as the driver calls it.\<close>

definition tokenize :: "string \<Rightarrow> lex_error + Token list" where
  "tokenize src =
     (case scanTokens (Lexer_new src) of Inl e \<Rightarrow> Inl e | Inr s \<Rightarrow> Inr (tokens s))"

text \<open>
  Where the tokens lie in the source: the same loop, collecting for every turn that
  emits a token the offset of its first byte and the offset just after its last byte.
\<close>

function scanSpans :: "Lexer \<Rightarrow> (nat \<times> nat) list" where
  "scanSpans s =
     (if \<not> isAtEnd s then
        (let s1 = skipWhitespace s in
         if isAtEnd s1 then []
         else case scanToken s1 of
                Inl e \<Rightarrow> []
              | Inr s2 \<Rightarrow>
                  (if length (tokens s2) > length (tokens s1)
                   then [(current s1, current s2)] else []) @ scanSpans s2)
      else [])"
  by pat_completeness auto
termination
proof (relation "measure (\<lambda>s. length (source s) - current s)", goal_cases)
  case 1
  show ?case by simp
next
  case (2 s s1 s2)
  from skipWhitespace_inv [of s] 2(2) have "source s1 = source s" "current s \<le> current s1"
    by (simp_all add: same_output_def)
  moreover from scanToken_progress [OF 2(4)]
  have "source s2 = source s1" "current s1 < current s2" by simp_all
  ultimately show ?case using 2(1) by (simp add: isAtEnd_def)
qed

declare scanSpans.simps [simp del]

text \<open>Spans in source order, none overlapping the next, from offset \<open>p\<close> on.\<close>

fun spans_ordered :: "nat \<Rightarrow> (nat \<times> nat) list \<Rightarrow> bool" where
  "spans_ordered p [] = True"
| "spans_ordered p ((a, b) # r) = (p \<le> a \<and> a < b \<and> spans_ordered b r)"

lemma spans_ordered_mono: "spans_ordered q sp \<Longrightarrow> p \<le> q \<Longrightarrow> spans_ordered p sp"
  by (cases sp) auto

text \<open>A quote at offset \<open>p\<close> with no quote after it: an unterminated string literal.\<close>

definition unterminated_at :: "string \<Rightarrow> nat \<Rightarrow> bool" where
  "unterminated_at src p \<longleftrightarrow>
     p < length src \<and> src ! p = DQUOTE \<and> DQUOTE \<notin> set (drop (Suc p) src)"

definition scan_post :: "Lexer \<Rightarrow> lex_error + Lexer \<Rightarrow> bool" where
  "scan_post s r =
     (case r of
        Inl e \<Rightarrow> \<exists>p\<ge>current s. unterminated_at (source s) p
      | Inr s' \<Rightarrow>
          source s' = source s \<and> line_ok s' \<and> isAtEnd s' \<and>
          (\<exists>new. tokens s' = tokens s @ new \<and>
             list_all2 (\<lambda>t (a, b). tok_at (source s) t a b) new (scanSpans s)) \<and>
          spans_ordered (current s) (scanSpans s))"

lemma scanLoop_inv: "line_ok s \<Longrightarrow> scan_post s (scanLoop s)"
proof (induction s rule: scanLoop.induct)
  case (1 s)
  note lo = \<open>line_ok s\<close>
  show ?case
  proof (cases "isAtEnd s")
    case True
    then have "scanLoop s = Inr s" "scanSpans s = []"
      by (simp_all add: scanLoop.simps [of s] scanSpans.simps [of s])
    with True lo show ?thesis by (simp add: scan_post_def)
  next
    case False
    define s1 where "s1 = skipWhitespace s"
    have sw: "same_output s s1" and lo1: "line_ok s1" and pk: "peek s1 \<noteq> NEWLINE"
      using skipWhitespace_inv [of s] skipWhitespace_stop [of s] lo by (simp_all add: s1_def)
    show ?thesis
    proof (cases "isAtEnd s1")
      case True
      with False have "scanLoop s = Inr s1" "scanSpans s = []"
        by (simp_all add: scanLoop.simps [of s] scanSpans.simps [of s] s1_def Let_def)
      with True lo1 sw show ?thesis by (simp add: scan_post_def same_output_def)
    next
      case ne1: False
      with pk have nn: "source s1 ! current s1 \<noteq> NEWLINE" by (simp add: peek_def)
      note step = scanToken_step [OF lo1 ne1 nn]
      show ?thesis
      proof (cases "scanToken s1")
        case (Inl e)
        with False ne1 have "scanLoop s = Inl e"
          by (simp add: scanLoop.simps [of s] s1_def Let_def)
        moreover from step Inl ne1 have "unterminated_at (source s1) (current s1)"
          by (simp add: unterminated_at_def isAtEnd_def)
        ultimately show ?thesis using sw
          by (auto simp: scan_post_def same_output_def)
      next
        case (Inr s2)
        with step have so: "step_ok s1 s2" by simp
        then have lo2: "line_ok s2" and src2: "source s2 = source s1"
          and cur2: "current s1 < current s2"
          by (simp_all add: step_ok_def)
        have ih: "scan_post s2 (scanLoop s2)"
          using False s1_def ne1 Inr lo2 by (rule "1.IH")
        from False ne1 Inr have loop: "scanLoop s = scanLoop s2"
          by (simp add: scanLoop.simps [of s] s1_def Let_def)
        from False ne1 Inr have spans: "scanSpans s =
            (if length (tokens s2) > length (tokens s1)
             then [(current s1, current s2)] else []) @ scanSpans s2"
          by (simp add: scanSpans.simps [of s] s1_def Let_def)
        from sw have src1: "source s1 = source s" and tok1: "tokens s1 = tokens s"
          and cur1: "current s \<le> current s1"
          by (simp_all add: same_output_def)
        show ?thesis
        proof (cases "scanLoop s2")
          case (Inl e)
          with ih obtain p where "p \<ge> current s2" "unterminated_at (source s2) p"
            by (auto simp: scan_post_def)
          with cur1 cur2 src1 src2 have "p \<ge> current s" "unterminated_at (source s) p"
            by simp_all
          with Inl loop show ?thesis by (auto simp: scan_post_def)
        next
          case r: (Inr s')
          with ih obtain new where
            p: "source s' = source s2" "line_ok s'" "isAtEnd s'"
              "tokens s' = tokens s2 @ new"
              "list_all2 (\<lambda>t (a, b). tok_at (source s2) t a b) new (scanSpans s2)"
              "spans_ordered (current s2) (scanSpans s2)"
            by (auto simp: scan_post_def)
          from so consider
            (diag) "tokens s2 = tokens s1"
            | (tok) t where "tokens s2 = tokens s1 @ [t]"
                "tok_at (source s1) t (current s1) (current s2)"
            by (auto simp: step_ok_def)
          then show ?thesis
          proof cases
            case diag
            then have "scanSpans s = scanSpans s2" using spans by simp
            with p diag src1 src2 tok1 cur1 cur2 r loop show ?thesis
              by (auto simp: scan_post_def intro: spans_ordered_mono)
          next
            case tok
            then have sp: "scanSpans s = (current s1, current s2) # scanSpans s2"
              using spans by simp
            have "tokens s' = tokens s @ (t # new)"
              using p(4) tok(1) tok1 by simp
            moreover have "list_all2 (\<lambda>t (a, b). tok_at (source s) t a b) (t # new) (scanSpans s)"
              unfolding sp using p(5) tok(2) src1 src2 by simp
            moreover have "spans_ordered (current s) (scanSpans s)"
              unfolding sp using p(6) cur1 cur2 by simp
            ultimately show ?thesis
              using p(1-3) src1 src2 r loop unfolding scan_post_def by auto
          qed
        qed
      qed
    qed
  qed
qed


lemma list_all2_setD: "list_all2 P xs ys \<Longrightarrow> x \<in> set xs \<Longrightarrow> \<exists>y. P x y"
  by (induction rule: list_all2_induct) auto

lemma tokenize_post:
  "case tokenize src of
     Inl e \<Rightarrow> \<exists>p. unterminated_at src p
   | Inr toks \<Rightarrow>
       \<exists>body. toks = body @ [mkToken TOK_EOF [] (1 + count_newlines src)] \<and>
         list_all2 (\<lambda>t (a, b). tok_at src t a b) body (scanSpans (Lexer_new src)) \<and>
         spans_ordered 0 (scanSpans (Lexer_new src))"
proof -
  have lo: "line_ok (Lexer_new src)"
    by (simp add: line_ok_def Lexer_new_def count_newlines_def)
  from scanLoop_inv [OF lo] show ?thesis
  proof (cases "scanLoop (Lexer_new src)")
    case (Inl e)
    with scanLoop_inv [OF lo] show ?thesis
      by (auto simp: tokenize_def scanTokens_def scan_post_def Lexer_new_def)
  next
    case (Inr s')
    with scanLoop_inv [OF lo] obtain new where
      p: "source s' = src" "line_ok s'" "isAtEnd s'" "tokens s' = new"
         "list_all2 (\<lambda>t (a, b). tok_at src t a b) new (scanSpans (Lexer_new src))"
         "spans_ordered 0 (scanSpans (Lexer_new src))"
      by (auto simp: scan_post_def Lexer_new_def)
    from p(1-3) have "line s' = 1 + count_newlines src"
      by (simp add: line_ok_def isAtEnd_def)
    with Inr p show ?thesis
      by (simp add: tokenize_def scanTokens_def)
  qed
qed


section \<open>What a scan must report\<close>

text \<open>
  A description of the input that does not run the scanner: one pass over the bytes with
  three modes. In code, a quote opens a string literal, two slashes open a comment, a
  newline starts the next line; a comment ends at the newline; a string literal ends at
  the next quote. A byte met in code is reported, with its line, when it is no blank, no
  byte of a token (punctuation, operator, digit, letter, underscore) and no start of a
  comment; \<open>!\<close> belongs to a token only before \<open>=\<close>. The pass yields whether the input
  ends inside a string literal (the literal is unterminated) and the reports in order.
\<close>

datatype lex_mode = InCode | InComment | InString

definition blank :: "char \<Rightarrow> bool" where
  "blank c \<longleftrightarrow> c = CHR '' '' \<or> c = CHR 0x0D \<or> c = CHR 0x09"

definition token_char :: "char \<Rightarrow> bool" where
  "token_char c \<longleftrightarrow> c \<in> set ''(){}[],;:+=<>-'' \<or> isDigit c \<or> isAlpha c"

fun reference_scan :: "lex_mode \<Rightarrow> nat \<Rightarrow> string \<Rightarrow> bool \<times> (nat \<times> char) list" where
  "reference_scan m ln [] = (m = InString, [])"
| "reference_scan InComment ln (c # cs) =
     (if c = NEWLINE then reference_scan InCode (ln + 1) cs else reference_scan InComment ln cs)"
| "reference_scan InString ln (c # cs) =
     (if c = DQUOTE then reference_scan InCode ln cs
      else reference_scan InString (if c = NEWLINE then ln + 1 else ln) cs)"
| "reference_scan InCode ln (c # cs) =
     (if c = DQUOTE then reference_scan InString ln cs
      else if c = NEWLINE then reference_scan InCode (ln + 1) cs
      else if c = CHR ''/'' \<and> take 1 cs = ''/'' then reference_scan InComment ln cs
      else if blank c \<or> token_char c \<or> (c = CHR ''!'' \<and> take 1 cs = ''='')
        then reference_scan InCode ln cs
      else (let (u, ds) = reference_scan InCode ln cs in (u, (ln, c) # ds)))"

text \<open>The scanner against this description: blanks and comments, one token, the loop.\<close>

lemma token_char_neq:
  "token_char c \<Longrightarrow> c \<noteq> DQUOTE \<and> c \<noteq> NEWLINE \<and> c \<noteq> CHR ''/'' \<and> \<not> blank c \<and> c \<noteq> CHR ''!''"
  by (auto simp: token_char_def blank_def DQUOTE_def NEWLINE_def isDigit_def isAlpha_def
      less_eq_char_def)

lemma blank_neq:
  "blank c \<Longrightarrow> c \<noteq> DQUOTE \<and> c \<noteq> NEWLINE \<and> c \<noteq> CHR ''/'' \<and> c \<noteq> NUL"
  by (auto simp: blank_def DQUOTE_def NEWLINE_def NUL_def)

lemma ref_token_char [simp]:
  "token_char c \<Longrightarrow> reference_scan InCode ln (c # cs) = reference_scan InCode ln cs"
  using token_char_neq [of c] by simp

lemma ref_blank [simp]:
  "blank c \<Longrightarrow> reference_scan InCode ln (c # cs) = reference_scan InCode ln cs"
  using blank_neq [of c] by simp

lemma ref_token_run:
  "\<forall>c\<in>set xs. token_char c \<Longrightarrow>
   reference_scan InCode ln (xs @ r) = reference_scan InCode ln r"
  by (induction xs) (simp_all del: reference_scan.simps)

lemma ref_string_open:
  "DQUOTE \<notin> set cs \<Longrightarrow> reference_scan InString ln cs = (True, [])"
  by (induction cs arbitrary: ln) auto

lemma ref_string_closed:
  "DQUOTE \<notin> set body \<Longrightarrow>
   reference_scan InString ln (body @ DQUOTE # r) =
   reference_scan InCode (ln + count_newlines body) r"
  by (induction body arbitrary: ln) (auto simp: count_newlines_def)

lemma ref_comment:
  "reference_scan InComment ln cs =
   reference_scan InCode ln (dropWhile (\<lambda>c. c \<noteq> NEWLINE) cs)"
  by (induction cs) simp_all


lemma ref_newline:
  "reference_scan InCode ln (NEWLINE # cs) = reference_scan InCode (ln + 1) cs"
  by simp

lemma ref_quote:
  "reference_scan InCode ln (DQUOTE # cs) = reference_scan InString ln cs"
  by simp

lemma ref_comment_start:
  "reference_scan InCode ln (CHR ''/'' # CHR ''/'' # cs) =
   reference_scan InCode ln (dropWhile (\<lambda>c. c \<noteq> NEWLINE) (CHR ''/'' # CHR ''/'' # cs))"
  by (simp add: ref_comment DQUOTE_def NEWLINE_def)

lemma ref_bang_eq:
  "reference_scan InCode ln (CHR ''!'' # CHR ''='' # cs) = reference_scan InCode ln cs"
  by (simp add: DQUOTE_def NEWLINE_def token_char_def)

lemma ref_diag:
  assumes "c \<noteq> DQUOTE" "c \<noteq> NEWLINE" "\<not> blank c" "\<not> token_char c"
    "\<not> (c = CHR ''/'' \<and> take 1 cs = ''/'')" "\<not> (c = CHR ''!'' \<and> take 1 cs = ''='')"
  shows "reference_scan InCode ln (c # cs) =
         (fst (reference_scan InCode ln cs), (ln, c) # snd (reference_scan InCode ln cs))"
  using assms by (auto simp: split_beta)

declare reference_scan.simps [simp del]

lemma rest_advanced: "rest (s\<lparr>current := current s + n\<rparr>) = drop n (rest s)"
  by (simp add: rest_def add.commute)

lemma rest_Suc: "rest (s\<lparr>current := Suc (current s)\<rparr>) = drop 1 (rest s)"
  using rest_advanced [of s 1] by simp

lemma rest_head: "\<not> isAtEnd s \<Longrightarrow> rest s = (source s ! current s) # rest (s\<lparr>current := Suc (current s)\<rparr>)"
  using rest_Cons [of s] by (simp add: advance_def)

lemma peekNext_rest:
  "\<not> isAtEnd s \<Longrightarrow> c \<noteq> NUL \<Longrightarrow>
   peekNext s = c \<longleftrightarrow> take 1 (rest (s\<lparr>current := Suc (current s)\<rparr>)) = [c]"
  by (auto simp: peekNext_def rest_def isAtEnd_def take_Suc_conv_app_nth hd_drop_conv_nth
      take_Suc split: if_splits)

lemma skipWhitespace_cases [case_names ws nl cm stop]:
  assumes ws: "\<And>s. blank (peek s) \<Longrightarrow> \<not> isAtEnd s \<Longrightarrow>
      skipWhitespace s = skipWhitespace (snd (advance s)) \<Longrightarrow> P (snd (advance s)) \<Longrightarrow> P s"
    and nl: "\<And>s. peek s = NEWLINE \<Longrightarrow> \<not> isAtEnd s \<Longrightarrow>
      skipWhitespace s = skipWhitespace (snd (advance (s\<lparr>line := line s + 1\<rparr>))) \<Longrightarrow>
      P (snd (advance (s\<lparr>line := line s + 1\<rparr>))) \<Longrightarrow> P s"
    and cm: "\<And>s. peek s = CHR ''/'' \<Longrightarrow> peekNext s = CHR ''/'' \<Longrightarrow> \<not> isAtEnd s \<Longrightarrow>
      skipWhitespace s = skipWhitespace (skipComment s) \<Longrightarrow> P (skipComment s) \<Longrightarrow> P s"
    and stop: "\<And>s. \<not> blank (peek s) \<Longrightarrow> peek s \<noteq> NEWLINE \<Longrightarrow>
      \<not> (peek s = CHR ''/'' \<and> peekNext s = CHR ''/'') \<Longrightarrow> skipWhitespace s = s \<Longrightarrow> P s"
  shows "P s"
proof (induction s rule: skipWhitespace.induct)
  case (1 s)
  let ?c = "peek s"
  let ?ws = "?c = CHR '' '' \<or> ?c = CHR 0x0D \<or> ?c = CHR 0x09"
  consider (ws) "?ws"
    | (nl) "\<not> ?ws" "?c = NEWLINE"
    | (cm) "\<not> ?ws" "?c \<noteq> NEWLINE" "?c = CHR ''/''" "peekNext s = CHR ''/''"
    | (stop) "\<not> ?ws" "?c \<noteq> NEWLINE" "\<not> (?c = CHR ''/'' \<and> peekNext s = CHR ''/'')"
    by blast
  then show ?case
  proof cases
    case ws
    have eq: "skipWhitespace s = skipWhitespace (snd (advance s))"
      by (subst skipWhitespace.simps) (use ws in \<open>simp add: Let_def\<close>)
    from ws have ne: "\<not> isAtEnd s"
      by (auto simp: peek_def NUL_def split: if_splits)
    from ws have b: "blank (peek s)" by (simp add: blank_def)
    show ?thesis by (rule assms(1) [OF b ne eq 1(1) [OF refl ws]])
  next
    case nl
    have eq: "skipWhitespace s = skipWhitespace (snd (advance (s\<lparr>line := line s + 1\<rparr>)))"
      by (subst skipWhitespace.simps) (simp add: Let_def nl)
    from nl have ne: "\<not> isAtEnd s"
      by (auto simp: peek_def NUL_def NEWLINE_def split: if_splits)
    show ?thesis by (rule assms(2) [OF nl(2) ne eq 1(2) [OF refl nl]])
  next
    case cm
    have eq: "skipWhitespace s = skipWhitespace (skipComment s)"
      by (subst skipWhitespace.simps) (use cm in \<open>simp add: Let_def\<close>)
    from cm have ne: "\<not> isAtEnd s"
      by (auto simp: peek_def NUL_def split: if_splits)
    show ?thesis
      by (rule assms(3) [OF cm(3) cm(4) ne eq 1(3) [OF refl cm(1) cm(2) cm(3) cm(4)]])
  next
    case stop
    have eq: "skipWhitespace s = s"
      by (subst skipWhitespace.simps) (use stop in \<open>auto simp: Let_def\<close>)
    from stop(1) have b: "\<not> blank (peek s)" by (simp add: blank_def)
    show ?thesis by (rule assms(4) [OF b stop(2) stop(3) eq])
  qed
qed

lemma skipWhitespace_stops:
  "\<not> blank (peek (skipWhitespace s)) \<and> peek (skipWhitespace s) \<noteq> NEWLINE \<and>
   \<not> (peek (skipWhitespace s) = CHR ''/'' \<and> peekNext (skipWhitespace s) = CHR ''/'')"
  by (induction s rule: skipWhitespace_cases) simp_all

lemma skipWhitespace_ref:
  "reference_scan InCode (line (skipWhitespace s)) (rest (skipWhitespace s)) =
   reference_scan InCode (line s) (rest s)"
proof (induction s rule: skipWhitespace_cases)
  case (ws s)
  from ws(2) have "rest s = peek s # rest (snd (advance s))"
    by (simp add: rest_Cons peek_def)
  with ws show ?case by (simp add: advance_def)
next
  case (nl s)
  from nl(2) have "rest s = peek s # rest (snd (advance (s\<lparr>line := line s + 1\<rparr>)))"
    by (simp add: peek_def advance_def rest_def isAtEnd_def Cons_nth_drop_Suc)
  with nl show ?case by (simp add: advance_def ref_newline)
next
  case (cm s)
  let ?s1 = "s\<lparr>current := Suc (current s)\<rparr>"
  from cm(3) have r1: "rest s = CHR ''/'' # rest ?s1"
    using cm(1) by (simp add: rest_head peek_def)
  from cm(2,3) have "take 1 (rest ?s1) = ''/''"
    by (simp add: peekNext_rest NUL_def)
  then obtain r where r2: "rest ?s1 = CHR ''/'' # r"
    by (cases "rest ?s1") auto
  have "rest (skipComment s) = dropWhile (\<lambda>c. c \<noteq> NEWLINE) (rest s)"
    by (simp add: skipComment_eq rest_advanced dropWhile_eq_drop)
  moreover have "line (skipComment s) = line s"
    by (simp add: skipComment_eq)
  ultimately show ?case
    using cm(4,5) r1 r2 ref_comment_start [of "line s" r] by simp
next
  case (stop s)
  then show ?case by simp
qed


definition step_ref :: "Lexer \<Rightarrow> Lexer \<Rightarrow> bool" where
  "step_ref s s' \<longleftrightarrow>
     (\<exists>D. cerr s' = cerr s @ D \<and>
        reference_scan InCode (line s) (rest s) =
          (fst (reference_scan InCode (line s') (rest s')),
           D @ snd (reference_scan InCode (line s') (rest s'))))"

lemma step_refI:
  "cerr s' = cerr s \<Longrightarrow>
   reference_scan InCode (line s) (rest s) = reference_scan InCode (line s') (rest s') \<Longrightarrow>
   step_ref s s'"
  unfolding step_ref_def by (intro exI [of _ "[]"]) simp

lemma isDigit_token_char: "isDigit c \<Longrightarrow> token_char c"
  by (simp add: token_char_def)

lemma isAlphaNumeric_token_char: "isAlphaNumeric c \<Longrightarrow> token_char c"
  by (auto simp: token_char_def isAlphaNumeric_def)

lemma step_ref_run:
  assumes ne: "\<not> isAtEnd s" and c: "token_char (source s ! current s)"
    and P: "\<And>x. P x \<Longrightarrow> token_char x"
    and s': "s' = addToken ty lx (s\<lparr>current := Suc (current s) +
                length (takeWhile P (rest (s\<lparr>current := Suc (current s)\<rparr>)))\<rparr>)"
  shows "step_ref s s'"
proof (rule step_refI)
  let ?s1 = "s\<lparr>current := Suc (current s)\<rparr>"
  show "cerr s' = cerr s" by (simp add: s' addToken_def)
  have "rest s' = drop (length (takeWhile P (rest ?s1))) (rest ?s1)"
    using rest_advanced [of ?s1 "length (takeWhile P (rest ?s1))"]
    by (simp add: s' addToken_def rest_def)
  then have r': "rest s' = dropWhile P (rest ?s1)"
    by (simp add: dropWhile_eq_drop)
  have "reference_scan InCode (line s) (rest s) = reference_scan InCode (line s) (rest ?s1)"
    using rest_head [OF ne] c by simp
  also have "rest ?s1 = takeWhile P (rest ?s1) @ dropWhile P (rest ?s1)"
    by simp
  also have "reference_scan InCode (line s) (takeWhile P (rest ?s1) @ dropWhile P (rest ?s1)) =
             reference_scan InCode (line s) (dropWhile P (rest ?s1))"
    by (rule ref_token_run) (auto dest: set_takeWhileD P)
  finally have "reference_scan InCode (line s) (rest s) =
                reference_scan InCode (line s) (rest s')"
    by (simp only: r')
  moreover have "line s' = line s" by (simp add: s' addToken_def)
  ultimately show "reference_scan InCode (line s) (rest s) =
                reference_scan InCode (line s') (rest s')"
    by simp
qed

lemma scanToken_ref:
  assumes ne: "\<not> isAtEnd s"
    and stop: "\<not> blank (peek s)" "peek s \<noteq> NEWLINE"
      "\<not> (peek s = CHR ''/'' \<and> peekNext s = CHR ''/'')"
  shows "case scanToken s of
           Inl e \<Rightarrow> reference_scan InCode (line s) (rest s) = (True, [])
                     \<and> e = UnterminatedString (line s + count_newlines (rest s))
         | Inr s' \<Rightarrow> step_ref s s'"
proof -
  let ?c = "source s ! current s"
  let ?s1 = "s\<lparr>current := Suc (current s)\<rparr>"
  have adv: "advance s = (?c, ?s1)"
    using ne by (simp add: advance_def isAtEnd_def)
  have pk: "peek s = ?c" using ne by (simp add: peek_def)
  have r0: "rest s = ?c # rest ?s1" by (rule rest_head [OF ne])
  have single: "\<And>ty lx. token_char ?c \<Longrightarrow> step_ref s (addToken ty lx ?s1)"
    using r0 by (intro step_refI) (simp_all add: addToken_def rest_def)
  have mtrue: "\<And>e s2. match e ?s1 = (True, s2) \<Longrightarrow>
      s2 = ?s1\<lparr>current := Suc (current ?s1)\<rparr> \<and> rest ?s1 = e # rest s2"
    using rest_head [of ?s1] by (auto simp: match_cases split: if_splits)
  have mfalse: "\<And>e s2. match e ?s1 = (False, s2) \<Longrightarrow> s2 = ?s1 \<and> take 1 (rest ?s1) \<noteq> [e]"
    using rest_head [of ?s1]
    by (cases "isAtEnd ?s1") (auto simp: match_cases rest_Nil split: if_splits)
  have double: "\<And>ty lx e s2. match e ?s1 = (True, s2) \<Longrightarrow>
      (token_char ?c \<and> token_char e) \<or> (?c = CHR ''!'' \<and> e = CHR ''='')
      \<Longrightarrow> step_ref s (addToken ty lx s2)"
    using r0 by (intro step_refI) (auto dest!: mtrue simp: addToken_def rest_def ref_bang_eq)
  have tc0: "token_char (CHR ''-'')" by (simp add: token_char_def)
  have nb: "\<not> isDigit (CHR ''!'')" "\<not> isAlpha (CHR ''!'')"
    by (simp_all add: isDigit_def isAlpha_def less_eq_char_def)
  have num: "isDigit ?c \<Longrightarrow> step_ref s (number ?s1)"
    "?c = CHR ''-'' \<Longrightarrow> step_ref s (negativeNumber ?s1)"
    by (rule step_ref_run [OF ne, where P = isDigit];
        simp add: number_def negativeNumber_def Let_def digits_loop_eq isDigit_token_char
          tc0)+
  have ident: "isAlpha ?c \<Longrightarrow> step_ref s (identifier ?s1)"
    by (rule step_ref_run [OF ne, where P = isAlphaNumeric];
        simp add: identifier_def Let_def identifier_loop_eq isAlphaNumeric_token_char
          isAlphaNumeric_def)
  have unexp: "\<And>ch. ?c = ch \<Longrightarrow> \<not> token_char ?c \<Longrightarrow> ?c \<noteq> DQUOTE \<Longrightarrow>
      \<not> (?c = CHR ''!'' \<and> take 1 (rest ?s1) = ''='') \<Longrightarrow>
      step_ref s (unexpected_character ch ?s1)"
  proof -
    fix ch
    assume ch: "?c = ch"
    assume a: "\<not> token_char ?c" "?c \<noteq> DQUOTE" "\<not> (?c = CHR ''!'' \<and> take 1 (rest ?s1) = ''='')"
    have "\<not> (?c = CHR ''/'' \<and> take 1 (rest ?s1) = ''/'')"
      using stop(3) pk peekNext_rest [OF ne, of "CHR ''/''"] by (simp add: NUL_def)
    from ref_diag [OF a(2) _ _ a(1) this a(3), of "line s"] stop(1,2) pk r0
    show "step_ref s (unexpected_character ch ?s1)"
      unfolding step_ref_def ch [symmetric]
      by (intro exI [of _ "[(line s, ?c)]"])
         (simp add: unexpected_character_def rest_def)
  qed
  have str: "\<And>s'. ?c = DQUOTE \<Longrightarrow> stringLiteral ?s1 = Inr s' \<Longrightarrow> step_ref s s'"
  proof -
    fix s' assume q: "?c = DQUOTE" and r: "stringLiteral ?s1 = Inr s'"
    let ?body = "takeWhile (\<lambda>c. c \<noteq> DQUOTE) (rest ?s1)"
    from r have inq: "DQUOTE \<in> set (rest ?s1)"
      and s': "s' = ?s1\<lparr>tokens := tokens ?s1 @
                     [mkToken TOK_STRING_LITERAL ?body (line ?s1 + count_newlines ?body)],
                   current := current ?s1 + length ?body + 1,
                   line := line ?s1 + count_newlines ?body\<rparr>"
      by (auto simp: stringLiteral_eq Let_def split: if_splits)
    have "rest s' = drop (length ?body + 1) (rest ?s1)"
      using rest_advanced [of ?s1 "length ?body + 1"] by (simp add: s' rest_def)
    moreover from inq have "dropWhile (\<lambda>c. c \<noteq> DQUOTE) (rest ?s1) \<noteq> []"
      by (auto simp: dropWhile_eq_Nil_conv)
    then obtain x r' where d: "dropWhile (\<lambda>c. c \<noteq> DQUOTE) (rest ?s1) = x # r'"
      by (cases "dropWhile (\<lambda>c. c \<noteq> DQUOTE) (rest ?s1)") auto
    then have x: "x = DQUOTE"
      using hd_dropWhile [of "\<lambda>c. c \<noteq> DQUOTE" "rest ?s1"] by auto
    have split: "rest ?s1 = ?body @ DQUOTE # r'"
      using takeWhile_dropWhile_id [of "\<lambda>c. c \<noteq> DQUOTE" "rest ?s1"] d x by simp
    ultimately have rs': "rest s' = r'"
      by (metis Suc_eq_plus1 append_eq_conv_conj drop_Suc_Cons drop_drop add.commute
          append.assoc append_Cons append_Nil length_append_singleton)
    have nb: "DQUOTE \<notin> set ?body"
      by (auto dest: set_takeWhileD)
    have "reference_scan InCode (line s) (rest s) =
          reference_scan InString (line s) (?body @ DQUOTE # r')"
      using r0 q split by (simp add: ref_quote)
    also have "\<dots> = reference_scan InCode (line s + count_newlines ?body) r'"
      by (rule ref_string_closed [OF nb])
    finally have "reference_scan InCode (line s) (rest s) =
          reference_scan InCode (line s + count_newlines ?body) r'" .
    moreover have "line s' = line s + count_newlines ?body" "cerr s' = cerr s"
      by (simp_all add: s')
    ultimately show "step_ref s s'"
      by (intro step_refI) (simp_all add: rs')
  qed
  have strerr: "\<And>e. ?c = DQUOTE \<Longrightarrow> stringLiteral ?s1 = Inl e \<Longrightarrow>
      reference_scan InCode (line s) (rest s) = (True, [])
      \<and> e = UnterminatedString (line s + count_newlines (rest s))"
    using r0 NEWLINE_neq(5) [symmetric]
    by (auto simp: stringLiteral_eq Let_def ref_quote ref_string_open count_newlines_def
        split: if_splits)
  have tc: "token_char (CHR ''('')" "token_char (CHR '')'')" "token_char (CHR ''{'')"
    "token_char (CHR ''}'')" "token_char (CHR ''['')" "token_char (CHR '']'')"
    "token_char (CHR '','')" "token_char (CHR '';'')" "token_char (CHR '':'')"
    "token_char (CHR ''+'')" "token_char (CHR ''='')" "token_char (CHR ''<'')"
    "token_char (CHR ''>'')" "token_char (CHR ''-'')"
    by (simp_all add: token_char_def)
  show ?thesis
  proof (cases "scanToken s")
    case (Inl e)
    then have "?c = DQUOTE \<and> stringLiteral ?s1 = Inl e"
      unfolding scanToken_def adv Let_def prod.case
      by (simp split: if_splits prod.splits bool.splits)
    with strerr Inl show ?thesis by auto
  next
    case (Inr s')
    have "step_ref s s'"
      using Inr unfolding scanToken_def adv Let_def prod.case
      by (auto split: if_splits prod.splits bool.splits simp: token_char_def nb
               intro!: single double num ident unexp intro: str dest!: mfalse)
    with Inr show ?thesis by simp
  qed
qed


lemma line_total:
  "line_ok s \<Longrightarrow> line s + count_newlines (rest s) = 1 + count_newlines (source s)"
proof -
  assume "line_ok s"
  then have "line s = 1 + count_newlines (take (current s) (source s))"
    by (simp add: line_ok_def)
  moreover have "count_newlines (source s) =
      count_newlines (take (current s) (source s)) + count_newlines (rest s)"
    unfolding rest_def count_newlines_append [symmetric] by simp
  ultimately show ?thesis by simp
qed

lemma ref_end: "reference_scan InCode ln [] = (False, [])"
  by (simp add: reference_scan.simps)

lemma scanLoop_ref:
  "line_ok s \<Longrightarrow>
   (case scanLoop s of
      Inl e \<Rightarrow> fst (reference_scan InCode (line s) (rest s))
                \<and> e = UnterminatedString (1 + count_newlines (source s))
    | Inr s' \<Rightarrow> \<not> fst (reference_scan InCode (line s) (rest s))
                 \<and> cerr s' = cerr s @ snd (reference_scan InCode (line s) (rest s)))"
proof (induction s rule: scanLoop.induct)
  case (1 s)
  show ?case
  proof (cases "isAtEnd s")
    case True
    then have "scanLoop s = Inr s" by (subst scanLoop.simps) simp
    with True show ?thesis by (simp add: rest_Nil ref_end)
  next
    case False
    let ?s1 = "skipWhitespace s"
    from skipWhitespace_inv [of s] 1(2) have so: "same_output s ?s1" and lo1: "line_ok ?s1"
      by simp_all
    have ref1: "reference_scan InCode (line ?s1) (rest ?s1) =
                reference_scan InCode (line s) (rest s)"
      by (rule skipWhitespace_ref)
    show ?thesis
    proof (cases "isAtEnd ?s1")
      case True
      with False have "scanLoop s = Inr ?s1"
        by (subst scanLoop.simps) (simp add: Let_def)
      moreover from True ref1 have "reference_scan InCode (line s) (rest s) = (False, [])"
        by (simp add: rest_Nil ref_end)
      ultimately show ?thesis using so by (simp add: same_output_def)
    next
      case ne1: False
      from skipWhitespace_stops [of s]
      have stops: "\<not> blank (peek ?s1)" "peek ?s1 \<noteq> NEWLINE"
        "\<not> (peek ?s1 = CHR ''/'' \<and> peekNext ?s1 = CHR ''/'')"
        by simp_all
      from stops(2) ne1 have nn: "source ?s1 ! current ?s1 \<noteq> NEWLINE"
        by (simp add: peek_def)
      note tr = scanToken_ref [OF ne1 stops]
      note st = scanToken_step [OF lo1 ne1 nn]
      show ?thesis
      proof (cases "scanToken ?s1")
        case (Inl e)
        with False ne1 have "scanLoop s = Inl e"
          by (subst scanLoop.simps) (simp add: Let_def)
        moreover from tr Inl ref1 line_total [OF lo1] so
        have "fst (reference_scan InCode (line s) (rest s))
              \<and> e = UnterminatedString (1 + count_newlines (source s))"
          by (simp add: same_output_def)
        ultimately show ?thesis by simp
      next
        case (Inr s2)
        with False ne1 have eq: "scanLoop s = scanLoop s2"
          by (subst scanLoop.simps) (simp add: Let_def)
        from st Inr have lo2: "line_ok s2" and src2: "source s2 = source ?s1"
          by (simp_all add: step_ok_def)
        from tr Inr obtain D where D: "cerr s2 = cerr ?s1 @ D"
          "reference_scan InCode (line ?s1) (rest ?s1) =
             (fst (reference_scan InCode (line s2) (rest s2)),
              D @ snd (reference_scan InCode (line s2) (rest s2)))"
          by (auto simp: step_ref_def)
        note ih = 1(1) [OF False refl ne1 Inr lo2]
        from so have c1: "cerr ?s1 = cerr s" "source ?s1 = source s"
          by (simp_all add: same_output_def)
        show ?thesis
          unfolding eq using ih D ref1 [symmetric] c1 src2
          by (cases "scanLoop s2") simp_all
      qed
    qed
  qed
qed

lemma reference_scan_quotes:
  "CHR ''/'' \<notin> set cs \<Longrightarrow>
   fst (reference_scan InCode ln cs) = odd (length (filter (\<lambda>c. c = DQUOTE) cs)) \<and>
   fst (reference_scan InString ln cs) = even (length (filter (\<lambda>c. c = DQUOTE) cs))"
  by (induction cs arbitrary: ln) (auto simp: reference_scan.simps split_beta)


section \<open>The syntax tree (ast.h)\<close>

text \<open>
  One constructor for every subclass of \<open>ExprAST\<close>, with the fields of the class in the
  order of its constructor. A \<open>std::unique_ptr\<close> that may be null (the initialiser of a
  declaration) is an option.
\<close>

datatype ExprAST =
    NumberExprAST "64 word"
  | BooleanExprAST bool
  | StringLiteralExprAST string
  | VariableExprAST string
  | BinaryExprAST string ExprAST ExprAST
  | CallExprAST string "ExprAST list"
  | ReturnExprAST ExprAST
  | VarDeclAST string string bool "ExprAST option"
  | IfExprAST ExprAST "ExprAST list" "ExprAST list"
  | WhileExprAST ExprAST "ExprAST list"
  | ForExprAST string ExprAST ExprAST "ExprAST list"
  | BreakExprAST
  | ContinueExprAST

record FunctionAST =
  Name :: string
  Args :: "(string \<times> string) list"
  ReturnType :: string
  Body :: "ExprAST list"
  isExtern :: bool
  isExport :: bool

section \<open>Values, instructions and the module under construction\<close>

text \<open>
  An \<open>llvm::Value*\<close> of the code generator is a constant, a global, a function argument
  or the result of an instruction; instructions are numbered as they are created, and
  the result of an instruction is named by its number. A null pointer is \<open>None\<close>.

  An instruction is what the builder is asked to create, with the operands and the name
  of the request. Blocks and functions are named by their handles (their index of
  creation). The builder of the code generator has the default constant folder: a
  request whose operands are constants creates no instruction and yields the constant
  that the folder computes, which is kept here as the request itself (\<open>ConstantExprV\<close>).
\<close>

datatype icmp_pred =
  ICMP_EQ | ICMP_NE | ICMP_ULT | ICMP_ULE | ICMP_UGT | ICMP_UGE | ICMP_SLT

datatype llvm_value =
    ConstantIntV ConstantInt
  | NullValueV llvm_type
  | UndefValueV llvm_type
  | GlobalVariableV nat
  | ArgumentV nat nat llvm_type
  | AllocaV nat llvm_type
  | InstV nat llvm_type
  | ConstantExprV instr llvm_type
and instr =
    Add llvm_value llvm_value string
  | ICmp icmp_pred llvm_value llvm_value string
  | Load llvm_type llvm_value string
  | Store llvm_value llvm_value
  | AllocaInst llvm_type string
  | Call nat "llvm_value list" string
  | Ret llvm_value
  | RetVoid
  | Br nat
  | CondBr llvm_value nat nat
  | BitCast llvm_value llvm_type
  | InsertValue llvm_value llvm_value nat
  | ExtractValue llvm_value nat string
  | IntCast llvm_value llvm_type bool string

fun getType :: "llvm_value \<Rightarrow> llvm_type" where
  "getType (ConstantIntV c) = ci_type c"
| "getType (NullValueV t) = t"
| "getType (UndefValueV t) = t"
| "getType (GlobalVariableV g) = PointerTy"
| "getType (ArgumentV f i t) = t"
| "getType (AllocaV i t) = PointerTy"
| "getType (InstV i t) = t"
| "getType (ConstantExprV i t) = t"

text \<open>\<open>llvm::isa<llvm::Constant>(V)\<close>\<close>

fun isConstant :: "llvm_value \<Rightarrow> bool" where
  "isConstant (ConstantIntV c) = True"
| "isConstant (NullValueV t) = True"
| "isConstant (UndefValueV t) = True"
| "isConstant (GlobalVariableV g) = True"
| "isConstant (ConstantExprV i t) = True"
| "isConstant (ArgumentV f i t) = False"
| "isConstant (AllocaV i t) = False"
| "isConstant (InstV i t) = False"

fun isTerminator :: "instr \<Rightarrow> bool" where
  "isTerminator (Ret v) = True"
| "isTerminator RetVoid = True"
| "isTerminator (Br b) = True"
| "isTerminator (CondBr c t e) = True"
| "isTerminator i = False"

datatype LinkageTypes = ExternalLinkage | InternalLinkage | PrivateLinkage

datatype CallingConv = CallingConv_C | CallingConv_Fast | CallingConv_Cold | CallingConv_Win64

record ir_function =
  fn_name :: string
  fn_ret :: llvm_type
  fn_params :: "llvm_type list"
  fn_vararg :: bool
  fn_linkage :: LinkageTypes
  fn_callconv :: CallingConv
  fn_arg_names :: "string list"

record ir_global =
  gv_name :: string
  gv_init :: string
  gv_isConstant :: bool
  gv_linkage :: LinkageTypes

datatype codegen_error =
    UnknownVariableName string
  | InvalidBinaryOperator string
  | UnknownFunctionReferenced string
  | IncorrectNumberOfArguments
  | ComplexPrintNotImplemented
  | TypeMismatchInForLoopRange
  | BreakNotInsideLoop
  | ContinueNotInsideLoop
  | UnknownType string
  | CastToAllocaFailed

text \<open>
  Everything the code generator reads and writes: the symbol table \<open>NamedValues\<close> (a
  \<open>std::map\<close> from names to value pointers, which may hold a null pointer), the two
  globals of ast.cpp that carry the loop context, the module (its functions and globals),
  the blocks created so far (name and parent function; a block's handle is its index),
  the instructions of every block, and the builder's insertion point.
\<close>

record codegen_state =
  NamedValues :: "string \<rightharpoonup> llvm_value option"
  CurrentLoopContinue :: "nat option"
  CurrentLoopBreak :: "nat option"
  module_functions :: "ir_function list"
  module_globals :: "ir_global list"
  blocks :: "(string \<times> nat) list"
  insts :: "nat \<Rightarrow> (nat \<times> instr) list"
  InsertBlock :: nat
  next_id :: nat

definition initial_state :: codegen_state where
  "initial_state =
     \<lparr> NamedValues = Map.empty, CurrentLoopContinue = None, CurrentLoopBreak = None,
       module_functions = [], module_globals = [], blocks = [], insts = (\<lambda>b. []),
       InsertBlock = 0, next_id = 0 \<rparr>"

subsection \<open>The builder\<close>

definition emit :: "instr \<Rightarrow> codegen_state \<Rightarrow> nat \<times> codegen_state" where
  "emit i s =
     (next_id s,
      s\<lparr>insts := (insts s)(InsertBlock s := insts s (InsertBlock s) @ [(next_id s, i)]),
        next_id := next_id s + 1\<rparr>)"

definition BasicBlock_Create :: "string \<Rightarrow> nat \<Rightarrow> codegen_state \<Rightarrow> nat \<times> codegen_state" where
  "BasicBlock_Create nm parent s = (length (blocks s), s\<lparr>blocks := blocks s @ [(nm, parent)]\<rparr>)"

definition SetInsertPoint :: "nat \<Rightarrow> codegen_state \<Rightarrow> codegen_state" where
  "SetInsertPoint b s = s\<lparr>InsertBlock := b\<rparr>"

text \<open>\<open>Builder.GetInsertBlock()->getParent()\<close>, for an insertion point that exists.\<close>

definition getParent :: "codegen_state \<Rightarrow> nat" where
  "getParent s =
     (if InsertBlock s < length (blocks s) then snd (blocks s ! InsertBlock s) else 0)"

text \<open>\<open>Builder.GetInsertBlock()->getTerminator()\<close> is not null.\<close>

definition hasTerminator :: "codegen_state \<Rightarrow> bool" where
  "hasTerminator s =
     (case insts s (InsertBlock s) of
        [] \<Rightarrow> False
      | x # xs \<Rightarrow> isTerminator (snd (last (x # xs))))"

text \<open>
  A request that the folder may answer: with constant operands the constant, and no
  instruction; otherwise the instruction, inserted at the insertion point.
\<close>

definition fold_or_emit ::
  "bool \<Rightarrow> instr \<Rightarrow> llvm_type \<Rightarrow> codegen_state \<Rightarrow> llvm_value \<times> codegen_state" where
  "fold_or_emit constant i ty s =
     (if constant then (ConstantExprV i ty, s)
      else (let (n, s') = emit i s in (InstV n ty, s')))"

definition CreateAdd ::
  "llvm_value \<Rightarrow> llvm_value \<Rightarrow> string \<Rightarrow> codegen_state \<Rightarrow> llvm_value \<times> codegen_state" where
  "CreateAdd L R nm s = fold_or_emit (isConstant L \<and> isConstant R) (Add L R nm) (getType L) s"

definition CreateICmp ::
  "icmp_pred \<Rightarrow> llvm_value \<Rightarrow> llvm_value \<Rightarrow> string \<Rightarrow> codegen_state
     \<Rightarrow> llvm_value \<times> codegen_state" where
  "CreateICmp p L R nm s =
     fold_or_emit (isConstant L \<and> isConstant R) (ICmp p L R nm) getInt1Ty s"

definition CreateLoad ::
  "llvm_type \<Rightarrow> llvm_value \<Rightarrow> string \<Rightarrow> codegen_state \<Rightarrow> llvm_value \<times> codegen_state" where
  "CreateLoad ty ptr nm s = (let (i, s') = emit (Load ty ptr nm) s in (InstV i ty, s'))"

definition CreateStore :: "llvm_value \<Rightarrow> llvm_value \<Rightarrow> codegen_state \<Rightarrow> codegen_state" where
  "CreateStore v ptr s = snd (emit (Store v ptr) s)"

definition CreateAlloca ::
  "llvm_type \<Rightarrow> string \<Rightarrow> codegen_state \<Rightarrow> llvm_value \<times> codegen_state" where
  "CreateAlloca ty nm s = (let (i, s') = emit (AllocaInst ty nm) s in (AllocaV i ty, s'))"

definition CreateCall ::
  "nat \<Rightarrow> llvm_value list \<Rightarrow> string \<Rightarrow> codegen_state \<Rightarrow> llvm_value \<times> codegen_state" where
  "CreateCall f args nm s =
     (let (i, s') = emit (Call f args nm) s
      in (InstV i (if f < length (module_functions s) then fn_ret (module_functions s ! f) else VoidTy), s'))"

definition CreateRet :: "llvm_value \<Rightarrow> codegen_state \<Rightarrow> codegen_state" where
  "CreateRet v s = snd (emit (Ret v) s)"

definition CreateRetVoid :: "codegen_state \<Rightarrow> codegen_state" where
  "CreateRetVoid s = snd (emit RetVoid s)"

definition CreateBr :: "nat \<Rightarrow> codegen_state \<Rightarrow> codegen_state" where
  "CreateBr b s = snd (emit (Br b) s)"

definition CreateCondBr :: "llvm_value \<Rightarrow> nat \<Rightarrow> nat \<Rightarrow> codegen_state \<Rightarrow> codegen_state" where
  "CreateCondBr c t e s = snd (emit (CondBr c t e) s)"

text \<open>A cast to the type the value has is the value itself.\<close>

definition CreateBitCast ::
  "llvm_value \<Rightarrow> llvm_type \<Rightarrow> codegen_state \<Rightarrow> llvm_value \<times> codegen_state" where
  "CreateBitCast v ty s =
     (if getType v = ty then (v, s) else fold_or_emit (isConstant v) (BitCast v ty) ty s)"

definition CreateInsertValue ::
  "llvm_value \<Rightarrow> llvm_value \<Rightarrow> nat \<Rightarrow> codegen_state \<Rightarrow> llvm_value \<times> codegen_state" where
  "CreateInsertValue agg v idx s =
     fold_or_emit (isConstant agg \<and> isConstant v) (InsertValue agg v idx) (getType agg) s"

fun getStructElementType :: "llvm_type \<Rightarrow> nat \<Rightarrow> llvm_type" where
  "getStructElementType (StructTy fs) idx = (if idx < length fs then fs ! idx else VoidTy)"
| "getStructElementType t idx = VoidTy"

definition CreateExtractValue ::
  "llvm_value \<Rightarrow> nat \<Rightarrow> string \<Rightarrow> codegen_state \<Rightarrow> llvm_value \<times> codegen_state" where
  "CreateExtractValue agg idx nm s =
     fold_or_emit (isConstant agg) (ExtractValue agg idx nm)
       (getStructElementType (getType agg) idx) s"

definition CreateIntCast ::
  "llvm_value \<Rightarrow> llvm_type \<Rightarrow> bool \<Rightarrow> string \<Rightarrow> codegen_state
     \<Rightarrow> llvm_value \<times> codegen_state" where
  "CreateIntCast v ty isSigned nm s =
     (if getType v = ty then (v, s)
      else fold_or_emit (isConstant v) (IntCast v ty isSigned nm) ty s)"

subsection \<open>The module\<close>

text \<open>\<open>TheModule->getFunction(name)\<close>: the first function of that name, or null.\<close>

fun find_function :: "string \<Rightarrow> ir_function list \<Rightarrow> nat \<Rightarrow> nat option" where
  "find_function nm [] i = None"
| "find_function nm (f # fs) i = (if fn_name f = nm then Some i else find_function nm fs (i + 1))"

definition getFunction :: "string \<Rightarrow> codegen_state \<Rightarrow> nat option" where
  "getFunction nm s = find_function nm (module_functions s) 0"

definition Function_Create ::
  "llvm_type \<Rightarrow> llvm_type list \<Rightarrow> bool \<Rightarrow> LinkageTypes \<Rightarrow> string \<Rightarrow> codegen_state
     \<Rightarrow> nat \<times> codegen_state" where
  "Function_Create ret params vararg linkage nm s =
     (length (module_functions s),
      s\<lparr>module_functions := module_functions s @
          [\<lparr> fn_name = nm, fn_ret = ret, fn_params = params, fn_vararg = vararg,
             fn_linkage = linkage, fn_callconv = CallingConv_C,
             fn_arg_names = [] \<rparr>]\<rparr>)"

definition setCallingConv :: "nat \<Rightarrow> CallingConv \<Rightarrow> codegen_state \<Rightarrow> codegen_state" where
  "setCallingConv f cc s =
     (if f < length (module_functions s)
      then s\<lparr>module_functions := (module_functions s)[f := (module_functions s ! f)\<lparr>fn_callconv := cc\<rparr>]\<rparr>
      else s)"

definition setArgNames :: "nat \<Rightarrow> string list \<Rightarrow> codegen_state \<Rightarrow> codegen_state" where
  "setArgNames f names s =
     (if f < length (module_functions s)
      then s\<lparr>module_functions := (module_functions s)[f := (module_functions s ! f)\<lparr>fn_arg_names := names\<rparr>]\<rparr>
      else s)"

definition new_GlobalVariable ::
  "string \<Rightarrow> bool \<Rightarrow> LinkageTypes \<Rightarrow> string \<Rightarrow> codegen_state \<Rightarrow> llvm_value \<times> codegen_state" where
  "new_GlobalVariable init isConst linkage nm s =
     (GlobalVariableV (length (module_globals s)),
      s\<lparr>module_globals := module_globals s @
          [\<lparr> gv_name = nm, gv_init = init, gv_isConstant = isConst,
             gv_linkage = linkage \<rparr>]\<rparr>)"

text \<open>\<open>ConstantDataArray::getString(ctx, Val, true)\<close>: the bytes and a final NUL.\<close>

definition getString :: "string \<Rightarrow> string" where
  "getString val = val @ [NUL]"

definition PointerType_get :: "llvm_type \<Rightarrow> nat \<Rightarrow> llvm_type" where
  "PointerType_get pointee addrspace = PointerTy"

section \<open>Type names (codegen.cpp)\<close>

function getTypeFromString :: "string \<Rightarrow> codegen_error + llvm_type" where
  "getTypeFromString typeStr =
     (if typeStr = ''u8'' \<or> typeStr = ''i8'' then Inr getInt8Ty
      else if typeStr = ''u16'' \<or> typeStr = ''i16'' then Inr getInt16Ty
      else if typeStr = ''u32'' \<or> typeStr = ''i32'' then Inr getInt32Ty
      else if typeStr = ''bool'' then Inr getInt1Ty
      else if typeStr = ''str'' then
        Inr (StructTy [PointerType_get getInt8Ty 0, getInt64Ty])
      else if substr typeStr 0 2 = ''[]'' then
        (case getTypeFromString (drop 2 typeStr) of
           Inl e \<Rightarrow> Inl e
         | Inr elemType \<Rightarrow> Inr (StructTy [PointerType_get elemType 0, getInt64Ty]))
      else Inl (UnknownType typeStr))"
  by pat_completeness auto
termination
proof (relation "measure length", goal_cases)
  case 1
  show ?case by simp
next
  case (2 typeStr)
  then have "typeStr \<noteq> []" by (auto simp: substr_def)
  then show ?case by simp
qed

declare getTypeFromString.simps [simp del]

section \<open>Code generation (ast.cpp)\<close>

text \<open>
  Every \<open>codegen\<close> method takes the builder, the module and \<open>NamedValues\<close> by reference
  and reads or writes the two loop-context globals: the model passes the state in and
  returns it. A method returns a value pointer (possibly null) or throws; the state at
  the throw is returned with the exception, since the objects it has changed outlive it.
\<close>

type_synonym 'a codegen_result = "(codegen_error + 'a) \<times> codegen_state"

text \<open>
  \<open>NamedValues[Name]\<close> as an rvalue: \<open>std::map::operator[]\<close> inserts a value-initialised
  (null) entry when the key is absent, and yields the entry.
\<close>

definition NamedValues_subscript ::
  "string \<Rightarrow> codegen_state \<Rightarrow> llvm_value option \<times> codegen_state" where
  "NamedValues_subscript nm s =
     (case NamedValues s nm of
        None \<Rightarrow> (None, s\<lparr>NamedValues := (NamedValues s)(nm \<mapsto> None)\<rparr>)
      | Some v \<Rightarrow> (v, s))"

text \<open>\<open>NamedValues[Name] = V\<close> and \<open>NamedValues.erase(Name)\<close>.\<close>

definition NamedValues_assign :: "string \<Rightarrow> llvm_value \<Rightarrow> codegen_state \<Rightarrow> codegen_state" where
  "NamedValues_assign nm v s = s\<lparr>NamedValues := (NamedValues s)(nm \<mapsto> Some v)\<rparr>"

definition NamedValues_erase :: "string \<Rightarrow> codegen_state \<Rightarrow> codegen_state" where
  "NamedValues_erase nm s = s\<lparr>NamedValues := (NamedValues s)(nm := None)\<rparr>"

text \<open>\<open>llvm::cast<llvm::AllocaInst>(V)->getAllocatedType()\<close>; the cast fails on any other value.\<close>

fun getAllocatedType :: "llvm_value \<Rightarrow> llvm_type option" where
  "getAllocatedType (AllocaV i ty) = Some ty"
| "getAllocatedType v = None"

text \<open>The dummy value the statements return: \<open>ConstantInt::get(Int8Ty, 0)\<close>.\<close>

definition dummy_zero :: llvm_value where
  "dummy_zero = ConstantIntV (ConstantInt_get getInt8Ty 0 False)"

definition VariableExprAST_codegen :: "string \<Rightarrow> codegen_state \<Rightarrow> llvm_value option codegen_result" where
  "VariableExprAST_codegen nm s0 =
     (let (V, s) = NamedValues_subscript nm s0 in
      case V of
        None \<Rightarrow> (Inl (UnknownVariableName nm), s)
      | Some v \<Rightarrow>
          (case getAllocatedType v of
             None \<Rightarrow> (Inl CastToAllocaFailed, s)
           | Some LoadType \<Rightarrow>
               (let (r, s') = CreateLoad LoadType v nm s in (Inr (Some r), s'))))"

definition StringLiteralExprAST_codegen ::
  "string \<Rightarrow> codegen_state \<Rightarrow> llvm_value option codegen_result" where
  "StringLiteralExprAST_codegen Val s0 =
     (let StrConstant = getString Val;
          (StrGlobal, s1) = new_GlobalVariable StrConstant True PrivateLinkage ''str'' s0;
          i8PtrType = PointerType_get getInt8Ty 0;
          usizeType = getInt64Ty;
          sliceType = StructTy [i8PtrType, usizeType];
          (StrPtr, s2) = CreateBitCast StrGlobal i8PtrType s1;
          (SliceStruct1, s3) = CreateInsertValue (UndefValueV sliceType) StrPtr 0 s2;
          (SliceStruct2, s4) =
             CreateInsertValue SliceStruct1
               (ConstantIntV (ConstantInt_get usizeType (of_nat (length Val)) False)) 1 s3
      in (Inr (Some SliceStruct2), s4))"

text \<open>The operator chain of \<open>BinaryExprAST::codegen\<close>, on two lowered operands.\<close>

definition BinaryExprAST_emit ::
  "string \<Rightarrow> llvm_value \<Rightarrow> llvm_value \<Rightarrow> codegen_state \<Rightarrow> llvm_value option codegen_result" where
  "BinaryExprAST_emit Op L R s =
     (if Op = ''+'' then (let (v, s') = CreateAdd L R ''addtmp'' s in (Inr (Some v), s'))
      else if Op = ''=='' then
        (let (v, s') = CreateICmp ICMP_EQ L R ''cmptmp'' s in (Inr (Some v), s'))
      else if Op = ''!='' then
        (let (v, s') = CreateICmp ICMP_NE L R ''cmptmp'' s in (Inr (Some v), s'))
      else if Op = ''<'' then
        (let (v, s') = CreateICmp ICMP_ULT L R ''cmptmp'' s in (Inr (Some v), s'))
      else if Op = ''<='' then
        (let (v, s') = CreateICmp ICMP_ULE L R ''cmptmp'' s in (Inr (Some v), s'))
      else if Op = ''>'' then
        (let (v, s') = CreateICmp ICMP_UGT L R ''cmptmp'' s in (Inr (Some v), s'))
      else if Op = ''>='' then
        (let (v, s') = CreateICmp ICMP_UGE L R ''cmptmp'' s in (Inr (Some v), s'))
      else (Inl (InvalidBinaryOperator Op), s))"

text \<open>
  The two declarations at the head of \<open>CallExprAST::generatePrintCall\<close>: \<open>printf\<close> and
  \<open>puts\<close> are declared unless the module has a function of that name.
\<close>

definition declare_printf :: "codegen_state \<Rightarrow> nat \<times> codegen_state" where
  "declare_printf s =
     (case getFunction ''printf'' s of
        Some f \<Rightarrow> (f, s)
      | None \<Rightarrow>
          Function_Create getInt32Ty [PointerType_get getInt8Ty 0] True ExternalLinkage
            ''printf'' s)"

definition declare_puts :: "codegen_state \<Rightarrow> nat \<times> codegen_state" where
  "declare_puts s =
     (case getFunction ''puts'' s of
        Some f \<Rightarrow> (f, s)
      | None \<Rightarrow>
          Function_Create getInt32Ty [PointerType_get getInt8Ty 0] False ExternalLinkage
            ''puts'' s)"

text \<open>\<open>if (arg->getType()->isStructTy()) arg = Builder.CreateExtractValue(arg, 0, "str_ptr");\<close>\<close>

definition extract_str_ptr :: "llvm_value \<Rightarrow> codegen_state \<Rightarrow> llvm_value \<times> codegen_state" where
  "extract_str_ptr arg s =
     (if isStructTy (getType arg) then CreateExtractValue arg 0 ''str_ptr'' s else (arg, s))"

text \<open>
  The start of \<open>ForExprAST::codegen\<close> after the two bounds are lowered, up to the jump
  into the loop body (\<open>TheFunction\<close> is read before the bounds are lowered): the cast of the end value, the slot of the loop variable, the four
  blocks, the loop context and the condition block. It yields the saved binding, the
  saved loop context and the blocks that the end of the method needs.
\<close>

definition ForExprAST_enter ::
  "nat \<Rightarrow> string \<Rightarrow> llvm_value \<Rightarrow> llvm_value \<Rightarrow> codegen_state
     \<Rightarrow> (llvm_value option \<times> nat option \<times> nat option \<times> llvm_type \<times> llvm_value
          \<times> nat \<times> nat \<times> nat) codegen_result" where
  "ForExprAST_enter TheFunction VarName StartVal EndVal0 s0 =
     (let VarType = getType StartVal
      in case (if getType EndVal0 \<noteq> VarType
               then (if isIntegerTy VarType \<and> isIntegerTy (getType EndVal0)
                     then (let (v, s) = CreateIntCast EndVal0 VarType True ''endcast'' s0
                           in (Inr v, s))
                     else (Inl TypeMismatchInForLoopRange, s0))
               else (Inr EndVal0, s0)) of
           (Inl e, s1) \<Rightarrow> (Inl e, s1)
         | (Inr EndVal, s1) \<Rightarrow>
             (let (Alloca, s2) = CreateAlloca VarType VarName s1;
                  s3 = CreateStore StartVal Alloca s2;
                  (OldVal, s4) = NamedValues_subscript VarName s3;
                  s5 = NamedValues_assign VarName Alloca s4;
                  (CondBB, s6) = BasicBlock_Create ''forcond'' TheFunction s5;
                  (LoopBB, s7) = BasicBlock_Create ''forloop'' TheFunction s6;
                  (IncrBB, s8) = BasicBlock_Create ''forincr'' TheFunction s7;
                  (AfterBB, s9) = BasicBlock_Create ''afterloop'' TheFunction s8;
                  PrevContinue = CurrentLoopContinue s9;
                  PrevBreak = CurrentLoopBreak s9;
                  s10 = s9\<lparr>CurrentLoopContinue := Some IncrBB, CurrentLoopBreak := Some AfterBB\<rparr>;
                  s11 = CreateBr CondBB s10;
                  s12 = SetInsertPoint CondBB s11;
                  (CurVar, s13) = CreateLoad VarType Alloca VarName s12;
                  (CondV, s14) = CreateICmp ICMP_SLT CurVar EndVal ''forcond'' s13;
                  s15 = CreateCondBr CondV LoopBB AfterBB s14;
                  s16 = SetInsertPoint LoopBB s15
              in (Inr (OldVal, PrevContinue, PrevBreak, VarType, Alloca, CondBB, IncrBB, AfterBB),
                  s16)))"

text \<open>The end of \<open>ForExprAST::codegen\<close>, after the body is lowered.\<close>

definition ForExprAST_leave ::
  "string \<Rightarrow> llvm_value option \<times> nat option \<times> nat option \<times> llvm_type \<times> llvm_value
             \<times> nat \<times> nat \<times> nat
     \<Rightarrow> codegen_state \<Rightarrow> llvm_value option codegen_result" where
  "ForExprAST_leave VarName saved s0 =
     (case saved of
        (OldVal, PrevContinue, PrevBreak, VarType, Alloca, CondBB, IncrBB, AfterBB) \<Rightarrow>
          (let s1 = (if \<not> hasTerminator s0 then CreateBr IncrBB s0 else s0);
               s2 = SetInsertPoint IncrBB s1;
               (CurVarForIncrement, s3) = CreateLoad VarType Alloca VarName s2;
               StepVal = ConstantIntV (ConstantInt_get VarType 1 False);
               (NextVar, s4) = CreateAdd CurVarForIncrement StepVal ''nextvar'' s3;
               s5 = CreateStore NextVar Alloca s4;
               s6 = CreateBr CondBB s5;
               s7 = SetInsertPoint AfterBB s6;
               s8 = (case OldVal of
                       Some old \<Rightarrow> NamedValues_assign VarName old s7
                     | None \<Rightarrow> NamedValues_erase VarName s7);
               s9 = s8\<lparr>CurrentLoopContinue := PrevContinue, CurrentLoopBreak := PrevBreak\<rparr>
           in (Inr (Some dummy_zero), s9)))"


text \<open>
  The print built-ins (\<open>CallExprAST::generatePrintCall\<close>): what follows the lowering of
  the single argument, for \<open>println\<close> (a call of \<open>puts\<close>) and for \<open>print\<close> (a call of
  \<open>printf\<close> with the format \<open>"%s"\<close>).
\<close>

definition CallExprAST_puts ::
  "nat \<Rightarrow> llvm_value \<Rightarrow> codegen_state \<Rightarrow> llvm_value option codegen_result" where
  "CallExprAST_puts putsFunc arg0 s0 =
     (let (arg, s1) = extract_str_ptr arg0 s0;
          (result, s2) = CreateCall putsFunc [arg] ''puts_call'' s1
      in (Inr (Some result), s2))"

definition CallExprAST_printf ::
  "nat \<Rightarrow> llvm_value \<Rightarrow> codegen_state \<Rightarrow> llvm_value option codegen_result" where
  "CallExprAST_printf printfFunc arg0 s0 =
     (let (arg, s1) = extract_str_ptr arg0 s0;
          formatStr = getString ''%s'';
          (formatGlobal, s2) = new_GlobalVariable formatStr True PrivateLinkage ''print_fmt'' s1;
          (formatPtr, s3) = CreateBitCast formatGlobal (PointerType_get getInt8Ty 0) s2;
          (result, s4) = CreateCall printfFunc [formatPtr, arg] ''printf_call'' s3
      in (Inr (Some result), s4))"

text \<open>
  \<open>IfExprAST::codegen\<close> between the lowering of the condition and the \<open>then\<close> body (the
  coercion of the condition, the three blocks, the conditional branch), between the two
  bodies, and after the \<open>else\<close> body.
\<close>

definition IfExprAST_enter ::
  "llvm_value \<Rightarrow> codegen_state \<Rightarrow> (nat \<times> nat \<times> nat) \<times> codegen_state" where
  "IfExprAST_enter CondV0 s0 =
     (let (CondV, s1) =
            CreateICmp ICMP_NE CondV0
              (ConstantIntV (ConstantInt_get (getType CondV0) 0 False)) ''ifcond'' s0;
          TheFunction = getParent s1;
          (ThenBB, s2) = BasicBlock_Create ''then'' TheFunction s1;
          (ElseBB, s3) = BasicBlock_Create ''else'' TheFunction s2;
          (MergeBB, s4) = BasicBlock_Create ''ifcont'' TheFunction s3;
          s5 = CreateCondBr CondV ThenBB ElseBB s4;
          s6 = SetInsertPoint ThenBB s5
      in ((ThenBB, ElseBB, MergeBB), s6))"

definition IfExprAST_else :: "nat \<times> nat \<times> nat \<Rightarrow> codegen_state \<Rightarrow> codegen_state" where
  "IfExprAST_else bbs s0 =
     (case bbs of (ThenBB, ElseBB, MergeBB) \<Rightarrow>
        (let s1 = (if \<not> hasTerminator s0 then CreateBr MergeBB s0 else s0)
         in SetInsertPoint ElseBB s1))"

definition IfExprAST_leave :: "nat \<times> nat \<times> nat \<Rightarrow> codegen_state \<Rightarrow> codegen_state" where
  "IfExprAST_leave bbs s0 =
     (case bbs of (ThenBB, ElseBB, MergeBB) \<Rightarrow>
        (let s1 = (if \<not> hasTerminator s0 then CreateBr MergeBB s0 else s0)
         in SetInsertPoint MergeBB s1))"

text \<open>
  \<open>WhileExprAST::codegen\<close>: up to the lowering of the condition (the three blocks, the
  loop context saved and replaced, the jump to the condition block); the restoring of
  the loop context; from the condition to the body; and after the body. What is saved is
  the previous loop context and the blocks of the loop.
\<close>

definition WhileExprAST_enter ::
  "codegen_state \<Rightarrow> (nat option \<times> nat option \<times> nat \<times> nat \<times> nat) \<times> codegen_state" where
  "WhileExprAST_enter s0 =
     (let TheFunction = getParent s0;
          (CondBB, s1) = BasicBlock_Create ''whilecond'' TheFunction s0;
          (LoopBB, s2) = BasicBlock_Create ''whileloop'' TheFunction s1;
          (AfterBB, s3) = BasicBlock_Create ''afterloop'' TheFunction s2;
          PrevContinue = CurrentLoopContinue s3;
          PrevBreak = CurrentLoopBreak s3;
          s4 = s3\<lparr>CurrentLoopContinue := Some CondBB, CurrentLoopBreak := Some AfterBB\<rparr>;
          s5 = CreateBr CondBB s4;
          s6 = SetInsertPoint CondBB s5
      in ((PrevContinue, PrevBreak, CondBB, LoopBB, AfterBB), s6))"

definition WhileExprAST_restore ::
  "nat option \<times> nat option \<times> nat \<times> nat \<times> nat \<Rightarrow> codegen_state \<Rightarrow> codegen_state" where
  "WhileExprAST_restore saved s0 =
     (case saved of (PrevContinue, PrevBreak, CondBB, LoopBB, AfterBB) \<Rightarrow>
        s0\<lparr>CurrentLoopContinue := PrevContinue, CurrentLoopBreak := PrevBreak\<rparr>)"

definition WhileExprAST_cond ::
  "nat option \<times> nat option \<times> nat \<times> nat \<times> nat \<Rightarrow> llvm_value \<Rightarrow> codegen_state
     \<Rightarrow> codegen_state" where
  "WhileExprAST_cond saved CondV0 s0 =
     (case saved of (PrevContinue, PrevBreak, CondBB, LoopBB, AfterBB) \<Rightarrow>
        (let (CondV, s1) =
               CreateICmp ICMP_NE CondV0
                 (ConstantIntV (ConstantInt_get (getType CondV0) 0 False)) ''whilecond'' s0;
             s2 = CreateCondBr CondV LoopBB AfterBB s1
         in SetInsertPoint LoopBB s2))"

definition WhileExprAST_leave ::
  "nat option \<times> nat option \<times> nat \<times> nat \<times> nat \<Rightarrow> codegen_state \<Rightarrow> codegen_state" where
  "WhileExprAST_leave saved s0 =
     (case saved of (PrevContinue, PrevBreak, CondBB, LoopBB, AfterBB) \<Rightarrow>
        (let s1 = (if \<not> hasTerminator s0 then CreateBr CondBB s0 else s0);
             s2 = SetInsertPoint AfterBB s1
         in WhileExprAST_restore saved s2))"

text \<open>\<open>VarDeclAST::codegen\<close> after the initial value is known: the store and the binding.\<close>

definition VarDeclAST_bind ::
  "string \<Rightarrow> llvm_value \<Rightarrow> llvm_value \<Rightarrow> codegen_state \<Rightarrow> llvm_value option codegen_result" where
  "VarDeclAST_bind nm Alloca InitVal s =
     (Inr (Some Alloca), NamedValues_assign nm Alloca (CreateStore InitVal Alloca s))"

text \<open>The size of the single argument of a print call, for the termination of the recursion.\<close>

lemma size_single_arg: "length xs = 1 \<Longrightarrow> size (xs ! 0) < Suc (size_list size xs)"
  by (cases xs) auto

text \<open>
  The methods, by recursion on the tree. \<open>codegen_body\<close> is the loop
  \<open>for (auto& Expr : Body) Expr->codegen(...)\<close>, which drops the values;
  \<open>codegen_args\<close> is the argument loop of \<open>CallExprAST::codegen\<close>, which returns null
  at the first null argument.
\<close>

function (sequential)
  codegen :: "ExprAST \<Rightarrow> codegen_state \<Rightarrow> llvm_value option codegen_result"
  and codegen_body :: "ExprAST list \<Rightarrow> codegen_state \<Rightarrow> codegen_error option \<times> codegen_state"
  and codegen_args :: "ExprAST list \<Rightarrow> codegen_state \<Rightarrow> llvm_value list option codegen_result"
where
  "codegen (NumberExprAST Val) s =
     (Inr (Some (ConstantIntV (NumberExprAST_codegen Val))), s)"
| "codegen (BooleanExprAST Val) s =
     (Inr (Some (ConstantIntV (ConstantInt_get getInt1Ty (if Val then 1 else 0) False))), s)"
| "codegen (StringLiteralExprAST Val) s = StringLiteralExprAST_codegen Val s"
| "codegen (VariableExprAST nm) s = VariableExprAST_codegen nm s"
| "codegen (BinaryExprAST Op LHS RHS) s =
     (case codegen LHS s of
        (Inl e, s1) \<Rightarrow> (Inl e, s1)
      | (Inr L, s1) \<Rightarrow>
          (case codegen RHS s1 of
             (Inl e, s2) \<Rightarrow> (Inl e, s2)
           | (Inr R, s2) \<Rightarrow>
               (case (L, R) of
                  (Some l, Some r) \<Rightarrow> BinaryExprAST_emit Op l r s2
                | _ \<Rightarrow> (Inr None, s2))))"
| "codegen (CallExprAST Callee CallArgs) s =
     (if Callee = ''print'' \<or> Callee = ''println'' \<or> Callee = ''printf'' then
        \<comment> \<open>generatePrintCall\<close>
        (let (printfFunc, s1) = declare_printf s;
             (putsFunc, s2) = declare_puts s1
         in if Callee = ''println'' \<and> length CallArgs = 1 then
              (case codegen (CallArgs ! 0) s2 of
                 (Inl e, s3) \<Rightarrow> (Inl e, s3)
               | (Inr None, s3) \<Rightarrow> (Inr None, s3)
               | (Inr (Some arg0), s3) \<Rightarrow> CallExprAST_puts putsFunc arg0 s3)
            else if Callee = ''print'' \<and> length CallArgs = 1 then
              (case codegen (CallArgs ! 0) s2 of
                 (Inl e, s3) \<Rightarrow> (Inl e, s3)
               | (Inr None, s3) \<Rightarrow> (Inr None, s3)
               | (Inr (Some arg0), s3) \<Rightarrow> CallExprAST_printf printfFunc arg0 s3)
            else (Inl ComplexPrintNotImplemented, s2))
      else
        (case getFunction Callee s of
           None \<Rightarrow> (Inl (UnknownFunctionReferenced Callee), s)
         | Some CalleeF \<Rightarrow>
             if length (fn_params (module_functions s ! CalleeF)) \<noteq> length CallArgs
             then (Inl IncorrectNumberOfArguments, s)
             else
               (case codegen_args CallArgs s of
                  (Inl e, s1) \<Rightarrow> (Inl e, s1)
                | (Inr None, s1) \<Rightarrow> (Inr None, s1)
                | (Inr (Some ArgsV), s1) \<Rightarrow>
                    (let (v, s2) = CreateCall CalleeF ArgsV ''calltmp'' s1
                     in (Inr (Some v), s2)))))"
| "codegen (ReturnExprAST RetVal) s =
     (case codegen RetVal s of
        (Inl e, s1) \<Rightarrow> (Inl e, s1)
      | (Inr None, s1) \<Rightarrow> (Inr None, s1)
      | (Inr (Some v), s1) \<Rightarrow> (Inr (Some v), CreateRet v s1))"
| "codegen (VarDeclAST nm Ty IsConst Init) s =
     (case getTypeFromString Ty of
        Inl e \<Rightarrow> (Inl e, s)
      | Inr VarType \<Rightarrow>
          (let (Alloca, s1) = CreateAlloca VarType nm s in
           case Init of
             Some init \<Rightarrow>
               (case codegen init s1 of
                  (Inl e, s2) \<Rightarrow> (Inl e, s2)
                | (Inr None, s2) \<Rightarrow> (Inr None, s2)
                | (Inr (Some InitVal), s2) \<Rightarrow> VarDeclAST_bind nm Alloca InitVal s2)
           | None \<Rightarrow> VarDeclAST_bind nm Alloca (NullValueV VarType) s1))"
| "codegen (IfExprAST Condition ThenBody ElseBody) s =
     (case codegen Condition s of
        (Inl e, s1) \<Rightarrow> (Inl e, s1)
      | (Inr None, s1) \<Rightarrow> (Inr None, s1)
      | (Inr (Some CondV0), s1) \<Rightarrow>
          (let (bbs, s2) = IfExprAST_enter CondV0 s1
           in case codegen_body ThenBody s2 of
                (Some e, s3) \<Rightarrow> (Inl e, s3)
              | (None, s3) \<Rightarrow>
                  (case codegen_body ElseBody (IfExprAST_else bbs s3) of
                     (Some e, s4) \<Rightarrow> (Inl e, s4)
                   | (None, s4) \<Rightarrow> (Inr (Some dummy_zero), IfExprAST_leave bbs s4))))"
| "codegen (WhileExprAST Condition LoopBody) s =
     (let (saved, s1) = WhileExprAST_enter s
      in case codegen Condition s1 of
           (Inl e, s2) \<Rightarrow> (Inl e, s2)
         | (Inr None, s2) \<Rightarrow> (Inr None, WhileExprAST_restore saved s2)
         | (Inr (Some CondV0), s2) \<Rightarrow>
             (case codegen_body LoopBody (WhileExprAST_cond saved CondV0 s2) of
                (Some e, s3) \<Rightarrow> (Inl e, s3)
              | (None, s3) \<Rightarrow> (Inr (Some dummy_zero), WhileExprAST_leave saved s3)))"
| "codegen (ForExprAST VarName Start End LoopBody) s =
     (case codegen Start s of
        (Inl e, s1) \<Rightarrow> (Inl e, s1)
      | (Inr StartVal, s1) \<Rightarrow>
          (case codegen End s1 of
             (Inl e, s2) \<Rightarrow> (Inl e, s2)
           | (Inr EndVal, s2) \<Rightarrow>
               (case (StartVal, EndVal) of
                  (Some sv, Some ev) \<Rightarrow>
                    (case ForExprAST_enter (getParent s) VarName sv ev s2 of
                       (Inl e, s3) \<Rightarrow> (Inl e, s3)
                     | (Inr saved, s3) \<Rightarrow>
                         (case codegen_body LoopBody s3 of
                            (Some e, s4) \<Rightarrow> (Inl e, s4)
                          | (None, s4) \<Rightarrow> ForExprAST_leave VarName saved s4))
                | _ \<Rightarrow> (Inr None, s2))))"
| "codegen BreakExprAST s =
     (case CurrentLoopBreak s of
        None \<Rightarrow> (Inl BreakNotInsideLoop, s)
      | Some b \<Rightarrow> (Inr (Some dummy_zero), CreateBr b s))"
| "codegen ContinueExprAST s =
     (case CurrentLoopContinue s of
        None \<Rightarrow> (Inl ContinueNotInsideLoop, s)
      | Some b \<Rightarrow> (Inr (Some dummy_zero), CreateBr b s))"
| "codegen_body [] s = (None, s)"
| "codegen_body (Expr # Exprs) s =
     (case codegen Expr s of
        (Inl e, s1) \<Rightarrow> (Some e, s1)
      | (Inr v, s1) \<Rightarrow> codegen_body Exprs s1)"
| "codegen_args [] s = (Inr (Some []), s)"
| "codegen_args (Arg # ArgsRest) s =
     (case codegen Arg s of
        (Inl e, s1) \<Rightarrow> (Inl e, s1)
      | (Inr None, s1) \<Rightarrow> (Inr None, s1)
      | (Inr (Some v), s1) \<Rightarrow>
          (case codegen_args ArgsRest s1 of
             (Inl e, s2) \<Rightarrow> (Inl e, s2)
           | (Inr None, s2) \<Rightarrow> (Inr None, s2)
           | (Inr (Some vs), s2) \<Rightarrow> (Inr (Some (v # vs)), s2)))"
  by pat_completeness auto

termination
  by (relation "measure (\<lambda>x. case x of
          Inl (e, s) \<Rightarrow> size e
        | Inr (Inl (es, s)) \<Rightarrow> size_list size es
        | Inr (Inr (es, s)) \<Rightarrow> size_list size es)")
     (auto simp: size_single_arg)

declare codegen.simps [simp del] codegen_body.simps [simp del] codegen_args.simps [simp del]

subsection \<open>Functions (FunctionAST::codegen)\<close>

text \<open>The first loop of the method: the IR type of every parameter.\<close>

fun getArgTypes :: "(string \<times> string) list \<Rightarrow> codegen_error + llvm_type list" where
  "getArgTypes [] = Inr []"
| "getArgTypes (arg # args) =
     (case getTypeFromString (snd arg) of
        Inl e \<Rightarrow> Inl e
      | Inr ty \<Rightarrow>
          (case getArgTypes args of
             Inl e \<Rightarrow> Inl e
           | Inr tys \<Rightarrow> Inr (ty # tys)))"

text \<open>
  The loop that records the arguments in \<open>NamedValues\<close>: a slot for every argument, the
  incoming value stored into it, the name bound to the slot.
\<close>

fun record_arguments ::
  "nat \<Rightarrow> (string \<times> string) list \<Rightarrow> nat \<Rightarrow> codegen_state
     \<Rightarrow> codegen_error option \<times> codegen_state" where
  "record_arguments F [] Idx s = (None, s)"
| "record_arguments F (arg # args) Idx s =
     (case getTypeFromString (snd arg) of
        Inl e \<Rightarrow> (Some e, s)
      | Inr ArgType \<Rightarrow>
          (let (Alloca, s1) = CreateAlloca ArgType (fst arg) s;
               s2 = CreateStore (ArgumentV F Idx ArgType) Alloca s1;
               s3 = NamedValues_assign (fst arg) Alloca s2
           in record_arguments F args (Idx + 1) s3))"

text \<open>
  \<open>llvm::verifyFunction\<close> belongs to LLVM: it is a parameter of the model, a predicate on
  the module and the function that is true when the function is broken. The method calls
  it and drops what it returns.
\<close>

definition FunctionAST_codegen ::
  "(codegen_state \<Rightarrow> nat \<Rightarrow> bool) \<Rightarrow> FunctionAST \<Rightarrow> codegen_state \<Rightarrow> nat codegen_result" where
  "FunctionAST_codegen verifyFunction fn s0 =
     (case getArgTypes (Args fn) of
        Inl e \<Rightarrow> (Inl e, s0)
      | Inr ArgTypes \<Rightarrow>
     (case (if ReturnType fn = [] then Inr VoidTy else getTypeFromString (ReturnType fn)) of
        Inl e \<Rightarrow> (Inl e, s0)
      | Inr RetType \<Rightarrow>
          (let linkage = (if isExtern fn \<or> isExport fn \<or> Name fn = ''main''
                          then ExternalLinkage else InternalLinkage);
               (F, s1) = Function_Create RetType ArgTypes False linkage (Name fn) s0;
               s2 = (if isExtern fn \<or> isExport fn \<or> Name fn = ''main''
                     then setCallingConv F CallingConv_C s1 else s1);
               s3 = setArgNames F (map fst (Args fn)) s2
           in if isExtern fn then (Inr F, s3)
              else
                (let (BB, s4) = BasicBlock_Create ''entry'' F s3;
                     s5 = SetInsertPoint BB s4;
                     s6 = s5\<lparr>NamedValues := Map.empty\<rparr>
                 in case record_arguments F (Args fn) 0 s6 of
                      (Some e, s7) \<Rightarrow> (Inl e, s7)
                    | (None, s7) \<Rightarrow>
                        (case codegen_body (Body fn) s7 of
                           (Some e, s8) \<Rightarrow> (Inl e, s8)
                         | (None, s8) \<Rightarrow>
                             (let s9 = (if ReturnType fn = [] \<and> \<not> hasTerminator s8
                                        then CreateRetVoid s8 else s8);
                                  broken = verifyFunction s9 F
                              in (Inr F, s9)))))))"

text \<open>
  The loop of the driver: \<open>for (auto& function : functions) function->codegen(...)\<close>. An
  exception ends it.
\<close>

fun codegen_functions ::
  "(codegen_state \<Rightarrow> nat \<Rightarrow> bool) \<Rightarrow> FunctionAST list \<Rightarrow> codegen_state
     \<Rightarrow> codegen_error option \<times> codegen_state" where
  "codegen_functions verifyFunction [] s = (None, s)"
| "codegen_functions verifyFunction (fn # fns) s =
     (case FunctionAST_codegen verifyFunction fn s of
        (Inl e, s1) \<Rightarrow> (Some e, s1)
      | (Inr F, s1) \<Rightarrow> codegen_functions verifyFunction fns s1)"

section \<open>Reasoning about the code generator\<close>

text \<open>
  Induction over the three mutually recursive lowering functions, with the recursive
  calls of every method named by the state they start from.
\<close>

lemma codegen_induct
  [case_names Number Boolean StringLiteral Variable Binary Call Return VarDecl If While For
     Break Continue BodyNil BodyCons ArgsNil ArgsCons]:
  fixes P :: "ExprAST \<Rightarrow> codegen_state \<Rightarrow> bool"
    and Q :: "ExprAST list \<Rightarrow> codegen_state \<Rightarrow> bool"
    and R :: "ExprAST list \<Rightarrow> codegen_state \<Rightarrow> bool"
  assumes "\<And>Val s. P (NumberExprAST Val) s"
    and "\<And>Val s. P (BooleanExprAST Val) s"
    and "\<And>Val s. P (StringLiteralExprAST Val) s"
    and "\<And>nm s. P (VariableExprAST nm) s"
    and "\<And>Op LHS RHS s.
          \<lbrakk>P LHS s; \<And>L s1. codegen LHS s = (Inr L, s1) \<Longrightarrow> P RHS s1\<rbrakk>
          \<Longrightarrow> P (BinaryExprAST Op LHS RHS) s"
    and "\<And>Callee CallArgs s.
          \<lbrakk>\<And>pf s1 pu s2.
              \<lbrakk>declare_printf s = (pf, s1); declare_puts s1 = (pu, s2);
               length CallArgs = 1; Callee = ''println'' \<or> Callee = ''print''\<rbrakk>
              \<Longrightarrow> P (CallArgs ! 0) s2;
           \<And>F. \<lbrakk>Callee \<noteq> ''print''; Callee \<noteq> ''println''; Callee \<noteq> ''printf'';
                 getFunction Callee s = Some F;
                 length (fn_params (module_functions s ! F)) = length CallArgs\<rbrakk>
                \<Longrightarrow> R CallArgs s\<rbrakk>
          \<Longrightarrow> P (CallExprAST Callee CallArgs) s"
    and "\<And>RetVal s. P RetVal s \<Longrightarrow> P (ReturnExprAST RetVal) s"
    and "\<And>nm Ty IsConst Init s.
          (\<And>VarType Alloca s1 init.
              \<lbrakk>getTypeFromString Ty = Inr VarType; CreateAlloca VarType nm s = (Alloca, s1);
               Init = Some init\<rbrakk> \<Longrightarrow> P init s1)
          \<Longrightarrow> P (VarDeclAST nm Ty IsConst Init) s"
    and "\<And>Condition ThenBody ElseBody s.
          \<lbrakk>P Condition s;
           \<And>CondV0 s1 bbs s2.
              \<lbrakk>codegen Condition s = (Inr (Some CondV0), s1);
               IfExprAST_enter CondV0 s1 = (bbs, s2)\<rbrakk> \<Longrightarrow> Q ThenBody s2;
           \<And>CondV0 s1 bbs s2 s3.
              \<lbrakk>codegen Condition s = (Inr (Some CondV0), s1);
               IfExprAST_enter CondV0 s1 = (bbs, s2);
               codegen_body ThenBody s2 = (None, s3)\<rbrakk>
              \<Longrightarrow> Q ElseBody (IfExprAST_else bbs s3)\<rbrakk>
          \<Longrightarrow> P (IfExprAST Condition ThenBody ElseBody) s"
    and "\<And>Condition LoopBody s.
          \<lbrakk>\<And>saved s1. WhileExprAST_enter s = (saved, s1) \<Longrightarrow> P Condition s1;
           \<And>saved s1 CondV0 s2.
              \<lbrakk>WhileExprAST_enter s = (saved, s1);
               codegen Condition s1 = (Inr (Some CondV0), s2)\<rbrakk>
              \<Longrightarrow> Q LoopBody (WhileExprAST_cond saved CondV0 s2)\<rbrakk>
          \<Longrightarrow> P (WhileExprAST Condition LoopBody) s"
    and "\<And>VarName Start End LoopBody s.
          \<lbrakk>P Start s;
           \<And>StartVal s1. codegen Start s = (Inr StartVal, s1) \<Longrightarrow> P End s1;
           \<And>sv s1 ev s2 saved s3.
              \<lbrakk>codegen Start s = (Inr (Some sv), s1); codegen End s1 = (Inr (Some ev), s2);
               ForExprAST_enter (getParent s) VarName sv ev s2 = (Inr saved, s3)\<rbrakk>
              \<Longrightarrow> Q LoopBody s3\<rbrakk>
          \<Longrightarrow> P (ForExprAST VarName Start End LoopBody) s"
    and "\<And>s. P BreakExprAST s"
    and "\<And>s. P ContinueExprAST s"
    and "\<And>s. Q [] s"
    and "\<And>Expr Exprs s.
          \<lbrakk>P Expr s; \<And>v s1. codegen Expr s = (Inr v, s1) \<Longrightarrow> Q Exprs s1\<rbrakk>
          \<Longrightarrow> Q (Expr # Exprs) s"
    and "\<And>s. R [] s"
    and "\<And>Arg ArgsRest s.
          \<lbrakk>P Arg s; \<And>v s1. codegen Arg s = (Inr (Some v), s1) \<Longrightarrow> R ArgsRest s1\<rbrakk>
          \<Longrightarrow> R (Arg # ArgsRest) s"
  shows "P e s" and "Q es s" and "R as s"
proof (induction e s and es s and as s rule: codegen_codegen_body_codegen_args.induct)
  case (1 Val s)
  show ?case by (rule assms(1))
next
  case (2 Val s)
  show ?case by (rule assms(2))
next
  case (3 Val s)
  show ?case by (rule assms(3))
next
  case (4 nm s)
  show ?case by (rule assms(4))
next
  case (5 Op LHS RHS s)
  show ?case by (rule assms(5)) (auto intro: 5)
next
  case (6 Callee CallArgs s)
  show ?case
  proof (rule assms(6))
    fix pf s1 pu s2
    assume a: "declare_printf s = (pf, s1)" "declare_puts s1 = (pu, s2)" "length CallArgs = 1"
      "Callee = ''println'' \<or> Callee = ''print''"
    show "P (CallArgs ! 0) s2"
    proof (cases "Callee = ''println''")
      case True
      show ?thesis
        by (rule 6(1) [OF _ a(1) [symmetric] refl a(2) [symmetric] refl]) (use True a in auto)
    next
      case False
      show ?thesis
        by (rule 6(2) [OF _ a(1) [symmetric] refl a(2) [symmetric] refl]) (use False a in auto)
    qed
  next
    fix F
    assume "Callee \<noteq> ''print''" "Callee \<noteq> ''println''" "Callee \<noteq> ''printf''"
      "getFunction Callee s = Some F"
      "length (fn_params (module_functions s ! F)) = length CallArgs"
    then show "R CallArgs s" by (intro 6(3)) auto
  qed
next
  case (7 RetVal s)
  show ?case by (rule assms(7)) (rule 7)
next
  case (8 nm Ty IsConst Init s)
  show ?case by (rule assms(8)) (auto intro: 8)
next
  case (9 Condition ThenBody ElseBody s)
  show ?case
    by (rule assms(9)) (auto intro: 9)
next
  case (10 Condition LoopBody s)
  show ?case by (rule assms(10)) (auto intro: 10)
next
  case (11 VarName Start End LoopBody s)
  show ?case by (rule assms(11)) (auto intro: 11)
next
  case (12 s)
  show ?case by (rule assms(12))
next
  case (13 s)
  show ?case by (rule assms(13))
next
  case (14 s)
  show ?case by (rule assms(14))
next
  case (15 Expr Exprs s)
  show ?case by (rule assms(15)) (auto intro: 15)
next
  case (16 s)
  show ?case by (rule assms(16))
next
  case (17 Arg ArgsRest s)
  show ?case by (rule assms(17)) (auto intro: 17)
qed

subsection \<open>What is built is never taken back\<close>

text \<open>
  The code generator only adds to the module: every later state has the functions, the
  blocks and, in every block, the instructions of an earlier state as a prefix of its
  own.
\<close>

definition extends :: "codegen_state \<Rightarrow> codegen_state \<Rightarrow> bool" where
  "extends s s' \<longleftrightarrow>
     prefix (module_functions s) (module_functions s') \<and>
     prefix (blocks s) (blocks s') \<and>
     (\<forall>b. prefix (insts s b) (insts s' b))"

lemma extends_refl [simp]: "extends s s"
  by (simp add: extends_def)

lemma extends_trans: "extends a b \<Longrightarrow> extends b c \<Longrightarrow> extends a c"
  unfolding extends_def by (meson prefix_order.trans)

lemma extends_emit: "extends s0 s \<Longrightarrow> extends s0 (snd (emit i s))"
  unfolding extends_def emit_def
  by (auto intro: prefix_order.trans [OF _ prefixI])

lemma extends_fields:
  "extends s0 s \<Longrightarrow> extends s0 (s\<lparr>NamedValues := nv\<rparr>)"
  "extends s0 s \<Longrightarrow> extends s0 (s\<lparr>CurrentLoopContinue := c, CurrentLoopBreak := b\<rparr>)"
  "extends s0 s \<Longrightarrow> extends s0 (s\<lparr>InsertBlock := ib\<rparr>)"
  "extends s0 s \<Longrightarrow> extends s0 (s\<lparr>blocks := blocks s @ bs\<rparr>)"
  "extends s0 s \<Longrightarrow> extends s0 (s\<lparr>module_functions := module_functions s @ fs\<rparr>)"
  "extends s0 s \<Longrightarrow> extends s0 (s\<lparr>module_globals := gs\<rparr>)"
  unfolding extends_def by (auto intro: prefix_order.trans)

named_theorems ext_intros

lemma extends_Create [ext_intros]:
  "extends s0 s \<Longrightarrow> extends s0 (snd (CreateAdd L R nm s))"
  "extends s0 s \<Longrightarrow> extends s0 (snd (CreateICmp p L R nm s))"
  "extends s0 s \<Longrightarrow> extends s0 (snd (CreateLoad ty ptr nm s))"
  "extends s0 s \<Longrightarrow> extends s0 (CreateStore v ptr s)"
  "extends s0 s \<Longrightarrow> extends s0 (snd (CreateAlloca ty nm s))"
  "extends s0 s \<Longrightarrow> extends s0 (snd (CreateCall f args nm s))"
  "extends s0 s \<Longrightarrow> extends s0 (CreateRet v s)"
  "extends s0 s \<Longrightarrow> extends s0 (CreateRetVoid s)"
  "extends s0 s \<Longrightarrow> extends s0 (CreateBr b s)"
  "extends s0 s \<Longrightarrow> extends s0 (CreateCondBr c t e s)"
  "extends s0 s \<Longrightarrow> extends s0 (snd (CreateBitCast v ty s))"
  "extends s0 s \<Longrightarrow> extends s0 (snd (CreateInsertValue agg v idx s))"
  "extends s0 s \<Longrightarrow> extends s0 (snd (CreateExtractValue agg idx nm s))"
  "extends s0 s \<Longrightarrow> extends s0 (snd (CreateIntCast v ty sg nm s))"
  by (simp_all add: CreateAdd_def CreateICmp_def CreateLoad_def CreateStore_def CreateAlloca_def
      CreateCall_def CreateRet_def CreateRetVoid_def CreateBr_def CreateCondBr_def
      CreateBitCast_def CreateInsertValue_def CreateExtractValue_def CreateIntCast_def
      fold_or_emit_def split_beta extends_emit)

lemma extends_other [ext_intros]:
  "extends s0 s \<Longrightarrow> extends s0 (snd (BasicBlock_Create nm p s))"
  "extends s0 s \<Longrightarrow> extends s0 (SetInsertPoint b s)"
  "extends s0 s \<Longrightarrow> extends s0 (snd (Function_Create r ps va l nm s))"
  "extends s0 s \<Longrightarrow> extends s0 (snd (new_GlobalVariable init c l nm s))"
  "extends s0 s \<Longrightarrow> extends s0 (snd (NamedValues_subscript nm s))"
  "extends s0 s \<Longrightarrow> extends s0 (NamedValues_assign nm v s)"
  "extends s0 s \<Longrightarrow> extends s0 (NamedValues_erase nm s)"
  "extends s0 s \<Longrightarrow> extends s0 (snd (declare_printf s))"
  "extends s0 s \<Longrightarrow> extends s0 (snd (declare_puts s))"
  "extends s0 s \<Longrightarrow> extends s0 (s\<lparr>CurrentLoopContinue := lc, CurrentLoopBreak := lb\<rparr>)"
  by (auto simp: BasicBlock_Create_def SetInsertPoint_def Function_Create_def
      new_GlobalVariable_def NamedValues_subscript_def NamedValues_assign_def
      NamedValues_erase_def declare_printf_def declare_puts_def extends_fields
      split: option.splits)

lemma extends_extract [ext_intros]:
  "extends s0 s \<Longrightarrow> extends s0 (snd (extract_str_ptr a s))"
  by (simp add: extract_str_ptr_def ext_intros)

lemma extends_leaf [ext_intros]:
  "extends s0 s \<Longrightarrow> extends s0 (snd (StringLiteralExprAST_codegen v s))"
  "extends s0 s \<Longrightarrow> extends s0 (snd (VariableExprAST_codegen nm s))"
  "extends s0 s \<Longrightarrow> extends s0 (snd (BinaryExprAST_emit Op l r s))"
  by (auto simp: StringLiteralExprAST_codegen_def VariableExprAST_codegen_def
      BinaryExprAST_emit_def Let_def split_beta
      intro!: ext_intros split: option.splits)

lemma extends_For [ext_intros]:
  "extends s0 s \<Longrightarrow> extends s0 (snd (ForExprAST_enter fp nm sv ev s))"
  "extends s0 s \<Longrightarrow> extends s0 (snd (ForExprAST_leave nm saved s))"
  by (auto simp: ForExprAST_enter_def ForExprAST_leave_def Let_def split_beta
      intro!: ext_intros split: option.splits prod.splits sum.splits)

lemma extends_helpers [ext_intros]:
  "extends s0 s \<Longrightarrow> extends s0 (snd (CallExprAST_puts f a s))"
  "extends s0 s \<Longrightarrow> extends s0 (snd (CallExprAST_printf f a s))"
  "extends s0 s \<Longrightarrow> extends s0 (snd (IfExprAST_enter c s))"
  "extends s0 s \<Longrightarrow> extends s0 (IfExprAST_else bbs s)"
  "extends s0 s \<Longrightarrow> extends s0 (IfExprAST_leave bbs s)"
  "extends s0 s \<Longrightarrow> extends s0 (snd (WhileExprAST_enter s))"
  "extends s0 s \<Longrightarrow> extends s0 (WhileExprAST_restore saved s)"
  "extends s0 s \<Longrightarrow> extends s0 (WhileExprAST_cond saved c s)"
  "extends s0 s \<Longrightarrow> extends s0 (WhileExprAST_leave saved s)"
  "extends s0 s \<Longrightarrow> extends s0 (snd (VarDeclAST_bind nm al v s))"
  by (auto simp: CallExprAST_puts_def CallExprAST_printf_def IfExprAST_enter_def
      IfExprAST_else_def IfExprAST_leave_def WhileExprAST_enter_def WhileExprAST_restore_def
      WhileExprAST_cond_def WhileExprAST_leave_def VarDeclAST_bind_def Let_def split_beta
      intro!: ext_intros split: prod.splits)


named_theorems ext_rel

lemma extends_rel [ext_rel]:
  "BinaryExprAST_emit Op l r s = (x, s') \<Longrightarrow> extends s0 s \<Longrightarrow> extends s0 s'"
  "StringLiteralExprAST_codegen v s = (x, s') \<Longrightarrow> extends s0 s \<Longrightarrow> extends s0 s'"
  "VariableExprAST_codegen nm s = (x, s') \<Longrightarrow> extends s0 s \<Longrightarrow> extends s0 s'"
  "ForExprAST_enter fp nm sv ev s = (y, s') \<Longrightarrow> extends s0 s \<Longrightarrow> extends s0 s'"
  "ForExprAST_leave nm saved s = (x, s') \<Longrightarrow> extends s0 s \<Longrightarrow> extends s0 s'"
  "CallExprAST_puts f a s = (x, s') \<Longrightarrow> extends s0 s \<Longrightarrow> extends s0 s'"
  "CallExprAST_printf f a s = (x, s') \<Longrightarrow> extends s0 s \<Longrightarrow> extends s0 s'"
  "IfExprAST_enter c s = (bbs, s') \<Longrightarrow> extends s0 s \<Longrightarrow> extends s0 s'"
  "WhileExprAST_enter s = (sv5, s') \<Longrightarrow> extends s0 s \<Longrightarrow> extends s0 s'"
  "VarDeclAST_bind nm al iv s = (x, s') \<Longrightarrow> extends s0 s \<Longrightarrow> extends s0 s'"
  "declare_printf s = (n, s') \<Longrightarrow> extends s0 s \<Longrightarrow> extends s0 s'"
  "declare_puts s = (n, s') \<Longrightarrow> extends s0 s \<Longrightarrow> extends s0 s'"
  "CreateCall n vs cn s = (cv, s') \<Longrightarrow> extends s0 s \<Longrightarrow> extends s0 s'"
  "CreateAlloca ty cn s = (cv, s') \<Longrightarrow> extends s0 s \<Longrightarrow> extends s0 s'"
  using extends_leaf [of s0 s] extends_For [of s0 s] extends_helpers [of s0 s]
    extends_other [of s0 s] extends_Create [of s0 s]
  by (metis snd_conv)+

lemma codegen_extends:
  "codegen e s = (r, s') \<Longrightarrow> extends s0 s \<Longrightarrow> extends s0 s'"
  "codegen_body es s = (rb, s') \<Longrightarrow> extends s0 s \<Longrightarrow> extends s0 s'"
  "codegen_args as s = (ra, s') \<Longrightarrow> extends s0 s \<Longrightarrow> extends s0 s'"
proof (induction e s and es s and as s arbitrary: r s' and rb s' and ra s'
    rule: codegen_induct)
  case Number
  then show ?case
    by (clarsimp simp: codegen.simps codegen_body.simps codegen_args.simps
        split: prod.splits sum.splits option.splits if_splits;
        (blast dest: ext_rel intro: ext_intros)?)
next
  case Boolean
  then show ?case
    by (clarsimp simp: codegen.simps codegen_body.simps codegen_args.simps
        split: prod.splits sum.splits option.splits if_splits;
        (blast dest: ext_rel intro: ext_intros)?)
next
  case StringLiteral
  then show ?case
    by (clarsimp simp: codegen.simps codegen_body.simps codegen_args.simps
        split: prod.splits sum.splits option.splits if_splits;
        (blast dest: ext_rel intro: ext_intros)?)
next
  case Variable
  then show ?case
    by (clarsimp simp: codegen.simps codegen_body.simps codegen_args.simps
        split: prod.splits sum.splits option.splits if_splits;
        (blast dest: ext_rel intro: ext_intros)?)
next
  case Binary
  then show ?case
    by (clarsimp simp: codegen.simps codegen_body.simps codegen_args.simps
        split: prod.splits sum.splits option.splits if_splits;
        (blast dest: ext_rel intro: ext_intros)?)
next
  case (Call Callee CallArgs s)
  note cg = \<open>codegen (CallExprAST Callee CallArgs) s = (r, s')\<close>
  note e0 = \<open>extends s0 s\<close>
  show ?case
  proof (cases "Callee = ''print'' \<or> Callee = ''println'' \<or> Callee = ''printf''")
    case True
    obtain pf s1 where d1: "declare_printf s = (pf, s1)" by (cases "declare_printf s")
    obtain pu s2 where d2: "declare_puts s1 = (pu, s2)" by (cases "declare_puts s1")
    from e0 d1 d2 have e2: "extends s0 s2" by (blast dest: ext_rel)
    obtain r3 s3 where c: "codegen (CallArgs ! 0) s2 = (r3, s3)"
      by (cases "codegen (CallArgs ! 0) s2")
    show ?thesis
    proof (cases "length CallArgs = 1 \<and> (Callee = ''println'' \<or> Callee = ''print'')")
      case a: True
      then have e3: "extends s0 s3"
        using Call.IH(1) [OF d1 d2 _ _ c e2] by blast
      from cg True a d1 d2 c e3 show ?thesis
        by (auto simp: codegen.simps split: sum.splits option.splits dest: ext_rel)
    next
      case na: False
      from cg True na d1 d2 e2 show ?thesis
        by (auto simp: codegen.simps)
    qed
  next
    case False
    show ?thesis
    proof (cases "getFunction Callee s")
      case None
      with cg False e0 show ?thesis by (auto simp: codegen.simps)
    next
      case (Some CalleeF)
      show ?thesis
      proof (cases "length (fn_params (module_functions s ! CalleeF)) \<noteq> length CallArgs")
        case True
        with cg False Some e0 show ?thesis by (auto simp: codegen.simps)
      next
        case ok: False
        obtain r1 s1 where c: "codegen_args CallArgs s = (r1, s1)"
          by (cases "codegen_args CallArgs s")
        from False ok have e1: "extends s0 s1"
          using Call.IH(2) [OF _ _ _ Some _ c e0] by blast
        from cg False Some ok c e1 show ?thesis
          by (auto simp: codegen.simps split: sum.splits option.splits prod.splits
              dest: ext_rel)
      qed
    qed
  qed
next
  case Return
  then show ?case
    by (clarsimp simp: codegen.simps codegen_body.simps codegen_args.simps
        split: prod.splits sum.splits option.splits if_splits;
        (blast dest: ext_rel intro: ext_intros)?)
next
  case VarDecl
  then show ?case
    by (clarsimp simp: codegen.simps codegen_body.simps codegen_args.simps
        split: prod.splits sum.splits option.splits if_splits;
        (blast dest: ext_rel intro: ext_intros)?)
next
  case If
  then show ?case
    by (clarsimp simp: codegen.simps codegen_body.simps codegen_args.simps
        split: prod.splits sum.splits option.splits if_splits;
        (blast dest: ext_rel intro: ext_intros)?)
next
  case While
  then show ?case
    by (clarsimp simp: codegen.simps codegen_body.simps codegen_args.simps
        split: prod.splits sum.splits option.splits if_splits;
        (blast dest: ext_rel intro: ext_intros)?)
next
  case For
  then show ?case
    by (clarsimp simp: codegen.simps codegen_body.simps codegen_args.simps
        split: prod.splits sum.splits option.splits if_splits;
        (blast dest: ext_rel intro: ext_intros)?)
next
  case Break
  then show ?case
    by (clarsimp simp: codegen.simps codegen_body.simps codegen_args.simps
        split: prod.splits sum.splits option.splits if_splits;
        (blast dest: ext_rel intro: ext_intros)?)
next
  case Continue
  then show ?case
    by (clarsimp simp: codegen.simps codegen_body.simps codegen_args.simps
        split: prod.splits sum.splits option.splits if_splits;
        (blast dest: ext_rel intro: ext_intros)?)
next
  case BodyNil
  then show ?case
    by (clarsimp simp: codegen.simps codegen_body.simps codegen_args.simps
        split: prod.splits sum.splits option.splits if_splits;
        (blast dest: ext_rel intro: ext_intros)?)
next
  case BodyCons
  then show ?case
    by (clarsimp simp: codegen.simps codegen_body.simps codegen_args.simps
        split: prod.splits sum.splits option.splits if_splits;
        (blast dest: ext_rel intro: ext_intros)?)
next
  case ArgsNil
  then show ?case
    by (clarsimp simp: codegen.simps codegen_body.simps codegen_args.simps
        split: prod.splits sum.splits option.splits if_splits;
        (blast dest: ext_rel intro: ext_intros)?)
next
  case ArgsCons
  then show ?case
    by (clarsimp simp: codegen.simps codegen_body.simps codegen_args.simps
        split: prod.splits sum.splits option.splits if_splits;
        (blast dest: ext_rel intro: ext_intros)?)
qed

lemma record_arguments_extends:
  "record_arguments F args Idx s = (r, s') \<Longrightarrow> extends s0 s \<Longrightarrow> extends s0 s'"
proof (induction args arbitrary: Idx s)
  case Nil
  then show ?case by simp
next
  case (Cons arg args)
  then show ?case
    by (clarsimp simp: Let_def split: sum.splits prod.splits;
        (blast dest: ext_rel intro: ext_intros)?)
qed

lemma extends_functions_nth:
  "extends s s' \<Longrightarrow> F < length (module_functions s) \<Longrightarrow>
   F < length (module_functions s') \<and> module_functions s' ! F = module_functions s ! F"
  by (auto simp: extends_def prefix_def nth_append)

subsection \<open>The comparisons that are emitted\<close>

text \<open>
  The condition block of a \<open>for\<close> loop, as \<open>ForExprAST_enter\<close> leaves it, and the four
  ordering operators of \<open>BinaryExprAST::codegen\<close>.
\<close>

lemma for_cond_block:
  "insts (SetInsertPoint LoopBB
            (CreateCondBr (fst (CreateICmp ICMP_SLT (fst (CreateLoad ty a nm t)) ev ''forcond''
                                  (snd (CreateLoad ty a nm t))))
               LoopBB AfterBB
               (snd (CreateICmp ICMP_SLT (fst (CreateLoad ty a nm t)) ev ''forcond''
                       (snd (CreateLoad ty a nm t))))))
     (InsertBlock t) =
   insts t (InsertBlock t) @
     [(next_id t, Load ty a nm),
      (Suc (next_id t), ICmp ICMP_SLT (InstV (next_id t) ty) ev ''forcond''),
      (Suc (Suc (next_id t)), CondBr (InstV (Suc (next_id t)) getInt1Ty) LoopBB AfterBB)]
   \<and> blocks (SetInsertPoint LoopBB
            (CreateCondBr (fst (CreateICmp ICMP_SLT (fst (CreateLoad ty a nm t)) ev ''forcond''
                                  (snd (CreateLoad ty a nm t))))
               LoopBB AfterBB
               (snd (CreateICmp ICMP_SLT (fst (CreateLoad ty a nm t)) ev ''forcond''
                       (snd (CreateLoad ty a nm t)))))) = blocks t"
  by (simp add: SetInsertPoint_def CreateCondBr_def CreateICmp_def CreateLoad_def
      fold_or_emit_def emit_def split_beta)

lemma ForExprAST_enter_cond:
  assumes ty: "getType ev = getType sv \<or> (isIntegerTy (getType sv) \<and> isIntegerTy (getType ev))"
  shows "\<exists>saved s3 CondBB LoopBB AfterBB pre n Alloca.
           ForExprAST_enter fp VarName sv ev s2 = (Inr saved, s3) \<and>
           CondBB < length (blocks s3) \<and> fst (blocks s3 ! CondBB) = ''forcond'' \<and>
           insts s3 CondBB =
             pre @ [(n, Load (getType sv) Alloca VarName),
                    (Suc n, ICmp ICMP_SLT (InstV n (getType sv))
                              (fst (CreateIntCast ev (getType sv) True ''endcast'' s2))
                              ''forcond''),
                    (Suc (Suc n), CondBr (InstV (Suc n) getInt1Ty) LoopBB AfterBB)]"
proof -
  let ?ty = "getType sv"
  let ?EndVal = "fst (CreateIntCast ev ?ty True ''endcast'' s2)"
  let ?s1 = "snd (CreateIntCast ev ?ty True ''endcast'' s2)"
  let ?Alloca = "fst (CreateAlloca ?ty VarName ?s1)"
  let ?sa = "snd (CreateAlloca ?ty VarName ?s1)"
  let ?OldVal = "fst (NamedValues_subscript VarName (CreateStore sv ?Alloca ?sa))"
  let ?s4 = "snd (NamedValues_subscript VarName (CreateStore sv ?Alloca ?sa))"
  let ?s5 = "NamedValues_assign VarName ?Alloca ?s4"
  let ?C = "length (blocks ?s5)"
  let ?s9 = "?s5\<lparr>blocks := blocks ?s5 @ [(''forcond'', fp), (''forloop'', fp),
                (''forincr'', fp), (''afterloop'', fp)]\<rparr>"
  let ?t = "SetInsertPoint ?C (CreateBr ?C
              (?s9\<lparr>CurrentLoopContinue := Some (Suc (Suc ?C)),
                    CurrentLoopBreak := Some (Suc (Suc (Suc ?C)))\<rparr>))"
  have t: "InsertBlock ?t = ?C" "blocks ?t = blocks ?s9"
    by (simp_all add: SetInsertPoint_def CreateBr_def emit_def)
  let ?s16 = "SetInsertPoint (Suc ?C)
            (CreateCondBr (fst (CreateICmp ICMP_SLT (fst (CreateLoad ?ty ?Alloca VarName ?t))
                                  ?EndVal ''forcond'' (snd (CreateLoad ?ty ?Alloca VarName ?t))))
               (Suc ?C) (Suc (Suc (Suc ?C)))
               (snd (CreateICmp ICMP_SLT (fst (CreateLoad ?ty ?Alloca VarName ?t)) ?EndVal
                       ''forcond'' (snd (CreateLoad ?ty ?Alloca VarName ?t)))))"
  have same: "getType ev = ?ty \<Longrightarrow> ?EndVal = ev \<and> ?s1 = s2"
    by (simp add: CreateIntCast_def)
  have run: "ForExprAST_enter fp VarName sv ev s2 =
      (Inr (?OldVal, CurrentLoopContinue ?s9, CurrentLoopBreak ?s9, ?ty, ?Alloca, ?C,
            Suc (Suc ?C), Suc (Suc (Suc ?C))), ?s16)"
  proof (cases "getType ev = ?ty")
    case True
    with same show ?thesis
      by (simp add: ForExprAST_enter_def Let_def split_beta BasicBlock_Create_def)
  next
    case False
    with ty show ?thesis
      by (simp add: ForExprAST_enter_def Let_def split_beta BasicBlock_Create_def)
  qed
  from for_cond_block [of "Suc ?C" ?ty ?Alloca VarName ?t ?EndVal "Suc (Suc (Suc ?C))"] t
  have "insts ?s16 ?C = insts ?t ?C @
     [(next_id ?t, Load ?ty ?Alloca VarName),
      (Suc (next_id ?t), ICmp ICMP_SLT (InstV (next_id ?t) ?ty) ?EndVal ''forcond''),
      (Suc (Suc (next_id ?t)), CondBr (InstV (Suc (next_id ?t)) getInt1Ty) (Suc ?C)
          (Suc (Suc (Suc ?C))))]"
    and "blocks ?s16 = blocks ?s9"
    by simp_all
  moreover have "?C < length (blocks ?s9)" "fst (blocks ?s9 ! ?C) = ''forcond''"
    by (simp_all add: nth_append)
  ultimately show ?thesis
    using run by (metis (no_types, lifting))
qed


lemma extends_block:
  assumes "extends s s'" and "b < length (blocks s)" and "insts s b = xs"
  shows "b < length (blocks s') \<and> blocks s' ! b = blocks s ! b \<and> (\<exists>post. insts s' b = xs @ post)"
  using assms by (auto simp: extends_def prefix_def nth_append)


lemma BinaryExprAST_emit_cmp:
  "BinaryExprAST_emit ''<'' l rv s = (let (v, s') = CreateICmp ICMP_ULT l rv ''cmptmp'' s in (Inr (Some v), s'))"
  "BinaryExprAST_emit ''<='' l rv s = (let (v, s') = CreateICmp ICMP_ULE l rv ''cmptmp'' s in (Inr (Some v), s'))"
  "BinaryExprAST_emit ''>'' l rv s = (let (v, s') = CreateICmp ICMP_UGT l rv ''cmptmp'' s in (Inr (Some v), s'))"
  "BinaryExprAST_emit ''>='' l rv s = (let (v, s') = CreateICmp ICMP_UGE l rv ''cmptmp'' s in (Inr (Some v), s'))"
  by (simp_all add: BinaryExprAST_emit_def)

lemma CreateICmp_eq:
  "CreateICmp p l rv nm s =
     (if isConstant l \<and> isConstant rv then (ConstantExprV (ICmp p l rv nm) getInt1Ty, s)
      else (InstV (next_id s) getInt1Ty,
            s\<lparr>insts := (insts s)(InsertBlock s := insts s (InsertBlock s) @
                  [(next_id s, ICmp p l rv nm)]),
              next_id := next_id s + 1\<rparr>))"
  by (simp add: CreateICmp_def fold_or_emit_def emit_def)

lemma unsigned_comparison:
  assumes l: "codegen LHS s = (Inr (Some l), s1)" and r: "codegen RHS s1 = (Inr (Some rv), s2)"
    and op: "Op \<in> set [''<'', ''<='', ''>'', ''>='']"
  shows "codegen (BinaryExprAST Op LHS RHS) s =
        (if isConstant l \<and> isConstant rv
         then (Inr (Some (ConstantExprV
                 (ICmp (if Op = ''<'' then ICMP_ULT else if Op = ''<='' then ICMP_ULE
                        else if Op = ''>'' then ICMP_UGT else ICMP_UGE) l rv ''cmptmp'')
                 getInt1Ty)), s2)
         else (Inr (Some (InstV (next_id s2) getInt1Ty)),
               s2\<lparr>insts := (insts s2)(InsertBlock s2 := insts s2 (InsertBlock s2) @
                   [(next_id s2,
                     ICmp (if Op = ''<'' then ICMP_ULT else if Op = ''<='' then ICMP_ULE
                           else if Op = ''>'' then ICMP_UGT else ICMP_UGE) l rv ''cmptmp'')]),
                 next_id := next_id s2 + 1\<rparr>))"
proof -
  have cg: "codegen (BinaryExprAST Op LHS RHS) s = BinaryExprAST_emit Op l rv s2"
    using l r by (simp add: codegen.simps)
  from op consider "Op = ''<''" | "Op = ''<=''" | "Op = ''>''" | "Op = ''>=''"
    by auto
  then show ?thesis
    using cg by cases (simp_all add: BinaryExprAST_emit_cmp CreateICmp_eq)
qed

section \<open>The claims\<close>

lemma uint_eq_sint_nonneg: "0 \<le> sint (w :: 64 word) \<Longrightarrow> uint w = sint w"
proof -
  assume nonneg: "0 \<le> sint w"
  have "sint w < 2 ^ 63" using sint_lt [of w] by simp
  then have "sint w < 2 ^ 64" by simp
  with nonneg have "take_bit 64 (sint w) = sint w"
    by (simp add: take_bit_int_eq_self)
  then show ?thesis by (simp add: uint_sint)
qed

text \<open>
  Claim C1. A literal \<open>v\<close> (a signed 64-bit value) lowers to an integer constant of
  width 8 when \<open>v\<close> lies in [-128, 255], 16 when it lies in [-32768, 65535], 32 when it
  lies in [-2^31, 2^32 - 1] and 64 otherwise; the constant carries \<open>v\<close> and is requested
  in signed representation.
\<close>

theorem number_narrowing:
  "ci_type (NumberExprAST_codegen v) =
     IntegerTy (if - 128 \<le> sint v \<and> sint v \<le> 255 then 8
                else if - 32768 \<le> sint v \<and> sint v \<le> 65535 then 16
                else if - (2 ^ 31) \<le> sint v \<and> sint v \<le> 2 ^ 32 - 1 then 32
                else 64)
   \<and> ci_value (NumberExprAST_codegen v) = v
   \<and> ci_isSigned (NumberExprAST_codegen v)"
proof (cases "0 \<le> sint v")
  case True
  then have "uint v = sint v" by (rule uint_eq_sint_nonneg)
  with True show ?thesis
    by (simp add: NumberExprAST_codegen_def NumberExprAST_IntType_def ConstantInt_get_def
        getInt8Ty_def getInt16Ty_def getInt32Ty_def getInt64Ty_def)
next
  case False
  then show ?thesis
    by (simp add: NumberExprAST_codegen_def NumberExprAST_IntType_def ConstantInt_get_def
        getInt8Ty_def getInt16Ty_def getInt32Ty_def getInt64Ty_def)
qed

text \<open>
  Claim C6, as the code has it. Whenever scanning succeeds, the tokens are the scanned
  tokens followed by the end-of-input token, whose line is the number of newline bytes of
  the whole input plus one. Each scanned token lies between the offsets \<open>a\<close> (its first
  byte) and \<open>b\<close> (just after its last byte) that \<open>scanSpans\<close> lists, in source order, and
  its line number is the count of newline bytes before \<open>b\<close> plus one. For every token
  other than a string literal this is also the count of newline bytes before its first
  byte plus one, and its lexeme is the source slice from \<open>a\<close> to \<open>b\<close>. A string literal
  carries the line of its closing quote: the count before its opening quote, plus the
  newline bytes inside the literal, plus one.
\<close>

theorem line_tracking:
  assumes "tokenize src = Inr toks"
  shows "\<exists>body. toks = body @ [mkToken TOK_EOF [] (1 + count_newlines src)] \<and>
           list_all2
             (\<lambda>t (a, b). a < b \<and> b \<le> length src \<and>
                tok_line t = 1 + count_newlines (take b src) \<and>
                (if tok_type t = TOK_STRING_LITERAL
                 then src ! a = DQUOTE \<and> lexeme t = substr src (a + 1) (b - a - 2) \<and>
                      tok_line t = 1 + count_newlines (take a src) + count_newlines (lexeme t)
                 else lexeme t = substr src a (b - a) \<and>
                      tok_line t = 1 + count_newlines (take a src)))
             body (scanSpans (Lexer_new src)) \<and>
           spans_ordered 0 (scanSpans (Lexer_new src))"
proof -
  from tokenize_post [of src] assms obtain body where
    b: "toks = body @ [mkToken TOK_EOF [] (1 + count_newlines src)]"
       "list_all2 (\<lambda>t (a, b). tok_at src t a b) body (scanSpans (Lexer_new src))"
       "spans_ordered 0 (scanSpans (Lexer_new src))"
    by auto
  from b(2) have "list_all2
             (\<lambda>t (a, b). a < b \<and> b \<le> length src \<and>
                tok_line t = 1 + count_newlines (take b src) \<and>
                (if tok_type t = TOK_STRING_LITERAL
                 then src ! a = DQUOTE \<and> lexeme t = substr src (a + 1) (b - a - 2) \<and>
                      tok_line t = 1 + count_newlines (take a src) + count_newlines (lexeme t)
                 else lexeme t = substr src a (b - a) \<and>
                      tok_line t = 1 + count_newlines (take a src)))
             body (scanSpans (Lexer_new src))"
    by (rule list_all2_mono) (auto simp: tok_at_def split: if_splits)
  with b(1,3) show ?thesis by blast
qed

text \<open>
  Claim C7. Scanning is a total function of the input, for every byte string (ASCII or
  not), and what it returns is fixed by \<open>reference_scan\<close>, the pass over the bytes that
  knows code, comments and string literals only. If the input ends inside a string
  literal, scanning fails with the unterminated-string error, which carries the last
  line. Otherwise it succeeds: the token sequence ends with the end-of-input token and
  holds no other one, and the side channel holds exactly one diagnostic \<open>(line, byte)\<close>
  for every unexpected byte of the code, in order, so that such a byte never stops the
  scan. For an input with no slash, ending inside a string literal means an odd number
  of quotes.
\<close>

theorem scanner_total:
  "(if fst (reference_scan InCode 1 src)
    then scanTokens (Lexer_new src) = Inl (UnterminatedString (1 + count_newlines src))
         \<and> tokenize src = Inl (UnterminatedString (1 + count_newlines src))
    else \<exists>s'. scanTokens (Lexer_new src) = Inr s' \<and> tokenize src = Inr (tokens s') \<and>
           cerr s' = snd (reference_scan InCode 1 src) \<and>
           tokens s' \<noteq> [] \<and> tok_type (last (tokens s')) = TOK_EOF \<and>
           (\<forall>t\<in>set (butlast (tokens s')). tok_type t \<noteq> TOK_EOF))
   \<and> (CHR ''/'' \<notin> set src \<longrightarrow>
        fst (reference_scan InCode 1 src) = odd (length (filter (\<lambda>c. c = DQUOTE) src)))"
proof
  have lo: "line_ok (Lexer_new src)"
    by (simp add: line_ok_def Lexer_new_def count_newlines_def)
  have base: "line (Lexer_new src) = 1" "rest (Lexer_new src) = src"
    "cerr (Lexer_new src) = []" "source (Lexer_new src) = src"
    by (simp_all add: Lexer_new_def rest_def)
  note r = scanLoop_ref [OF lo, unfolded base]
  show "if fst (reference_scan InCode 1 src)
    then scanTokens (Lexer_new src) = Inl (UnterminatedString (1 + count_newlines src))
         \<and> tokenize src = Inl (UnterminatedString (1 + count_newlines src))
    else \<exists>s'. scanTokens (Lexer_new src) = Inr s' \<and> tokenize src = Inr (tokens s') \<and>
           cerr s' = snd (reference_scan InCode 1 src) \<and>
           tokens s' \<noteq> [] \<and> tok_type (last (tokens s')) = TOK_EOF \<and>
           (\<forall>t\<in>set (butlast (tokens s')). tok_type t \<noteq> TOK_EOF)"
  proof (cases "scanLoop (Lexer_new src)")
    case (Inl e)
    with r show ?thesis by (simp add: scanTokens_def tokenize_def)
  next
    case (Inr s1)
    let ?s' = "s1\<lparr>tokens := tokens s1 @ [mkToken TOK_EOF [] (line s1)]\<rparr>"
    from Inr have st: "scanTokens (Lexer_new src) = Inr ?s'" and tk: "tokenize src = Inr (tokens ?s')"
      by (simp_all add: scanTokens_def tokenize_def)
    with tokenize_post [of src] obtain body where
      b: "tokens ?s' = body @ [mkToken TOK_EOF [] (1 + count_newlines src)]"
         "list_all2 (\<lambda>t (a, b). tok_at src t a b) body (scanSpans (Lexer_new src))"
      by auto
    have "\<forall>t\<in>set body. tok_type t \<noteq> TOK_EOF"
    proof
      fix t assume "t \<in> set body"
      with b(2) obtain y where "(\<lambda>(a, b). tok_at src t a b) y"
        by (blast dest: list_all2_setD)
      then show "tok_type t \<noteq> TOK_EOF"
        by (cases y) (simp add: tok_at_def)
    qed
    moreover from b(1) have "body = tokens s1" by simp
    ultimately have "\<forall>t\<in>set (butlast (tokens ?s')). tok_type t \<noteq> TOK_EOF"
      by simp
    moreover have "tokens ?s' \<noteq> []" "tok_type (last (tokens ?s')) = TOK_EOF"
      by (simp_all add: mkToken_def)
    moreover from r Inr have "\<not> fst (reference_scan InCode 1 src)"
      "cerr ?s' = snd (reference_scan InCode 1 src)"
      by simp_all
    ultimately show ?thesis using st tk by (simp del: butlast_snoc)
  qed
next
  show "CHR ''/'' \<notin> set src \<longrightarrow>
        fst (reference_scan InCode 1 src) = odd (length (filter (\<lambda>c. c = DQUOTE) src))"
    using reference_scan_quotes [of src 1] by simp
qed

text \<open>
  Claim C8. Scanning a token that starts with a quote fails exactly when no quote follows
  (end of input is reached before a closing quote), and the error carries the line
  reached there. Otherwise one \<open>STRING_LITERAL\<close> token is emitted whose lexeme is the
  bytes between the opening quote and the next quote, unchanged: no byte is dropped or
  translated, so a backslash followed by \<open>n\<close> stays these two bytes.
\<close>

theorem string_literal_scan:
  assumes "\<not> isAtEnd s" and "source s ! current s = DQUOTE"
  shows "scanToken s =
     (let after = drop (Suc (current s)) (source s);
          body = takeWhile (\<lambda>c. c \<noteq> DQUOTE) after
      in if DQUOTE \<in> set after
         then Inr (s\<lparr>tokens := tokens s @
                        [mkToken TOK_STRING_LITERAL body (line s + count_newlines body)],
                      current := current s + length body + 2,
                      line := line s + count_newlines body\<rparr>)
         else Inl (UnterminatedString (line s + count_newlines after)))
     \<and> (DQUOTE \<in> set (drop (Suc (current s)) (source s)) \<longrightarrow>
          (\<exists>r. drop (Suc (current s)) (source s) =
                takeWhile (\<lambda>c. c \<noteq> DQUOTE) (drop (Suc (current s)) (source s)) @ DQUOTE # r))"
proof
  have "scanToken s = stringLiteral (s\<lparr>current := Suc (current s)\<rparr>)"
    using assms by (simp add: scanToken_def advance_def isAtEnd_def DQUOTE_def)
  then show "scanToken s =
     (let after = drop (Suc (current s)) (source s);
          body = takeWhile (\<lambda>c. c \<noteq> DQUOTE) after
      in if DQUOTE \<in> set after
         then Inr (s\<lparr>tokens := tokens s @
                        [mkToken TOK_STRING_LITERAL body (line s + count_newlines body)],
                      current := current s + length body + 2,
                      line := line s + count_newlines body\<rparr>)
         else Inl (UnterminatedString (line s + count_newlines after)))"
    by (simp add: stringLiteral_eq rest_def Let_def)
next
  show "DQUOTE \<in> set (drop (Suc (current s)) (source s)) \<longrightarrow>
          (\<exists>r. drop (Suc (current s)) (source s) =
                takeWhile (\<lambda>c. c \<noteq> DQUOTE) (drop (Suc (current s)) (source s)) @ DQUOTE # r)"
  proof
    let ?after = "drop (Suc (current s)) (source s)"
    assume "DQUOTE \<in> set ?after"
    then have "dropWhile (\<lambda>c. c \<noteq> DQUOTE) ?after \<noteq> []" by (auto simp: dropWhile_eq_Nil_conv)
    then obtain x r where d: "dropWhile (\<lambda>c. c \<noteq> DQUOTE) ?after = x # r"
      by (cases "dropWhile (\<lambda>c. c \<noteq> DQUOTE) ?after") auto
    then have "x = DQUOTE" using hd_dropWhile [of "\<lambda>c. c \<noteq> DQUOTE" ?after] by auto
    with d takeWhile_dropWhile_id [of "\<lambda>c. c \<noteq> DQUOTE" ?after]
    show "\<exists>r. ?after = takeWhile (\<lambda>c. c \<noteq> DQUOTE) ?after @ DQUOTE # r"
      by metis
  qed
qed

text \<open>
  Claim C6 as stated fails on a string literal that holds a newline: the source of the
  three bytes quote, newline, quote yields a \<open>STRING_LITERAL\<close> token that starts at
  offset 0, before which there is no newline, and carries line 2.
\<close>

theorem line_tracking_counterexample:
  "tokenize [DQUOTE, NEWLINE, DQUOTE] =
     Inr [mkToken TOK_STRING_LITERAL [NEWLINE] 2, mkToken TOK_EOF [] 2]
   \<and> scanSpans (Lexer_new [DQUOTE, NEWLINE, DQUOTE]) = [(0, 3)]
   \<and> tok_line (mkToken TOK_STRING_LITERAL [NEWLINE] 2)
       \<noteq> 1 + count_newlines (take 0 [DQUOTE, NEWLINE, DQUOTE])"
  by code_simp

theorem line_tracking_witness:
  "tokenize [CHR ''a'', NEWLINE, DQUOTE, NEWLINE, DQUOTE] =
     Inr [mkToken TOK_IDENTIFIER ''a'' 1, mkToken TOK_STRING_LITERAL [NEWLINE] 3,
          mkToken TOK_EOF [] 3]
   \<and> scanSpans (Lexer_new [CHR ''a'', NEWLINE, DQUOTE, NEWLINE, DQUOTE]) = [(0, 1), (2, 5)]
   \<and> (\<exists>body. [mkToken TOK_IDENTIFIER ''a'' 1, mkToken TOK_STRING_LITERAL [NEWLINE] 3,
                mkToken TOK_EOF [] 3] =
              body @ [mkToken TOK_EOF []
                        (1 + count_newlines [CHR ''a'', NEWLINE, DQUOTE, NEWLINE, DQUOTE])])"
proof -
  have h: "tokenize [CHR ''a'', NEWLINE, DQUOTE, NEWLINE, DQUOTE] =
     Inr [mkToken TOK_IDENTIFIER ''a'' 1, mkToken TOK_STRING_LITERAL [NEWLINE] 3,
          mkToken TOK_EOF [] 3]"
    by code_simp
  have sp: "scanSpans (Lexer_new [CHR ''a'', NEWLINE, DQUOTE, NEWLINE, DQUOTE]) = [(0, 1), (2, 5)]"
    by code_simp
  from line_tracking [OF h] h sp show ?thesis by blast
qed

theorem scanner_total_witness:
  "(\<exists>s'. scanTokens (Lexer_new ''a # ! b'') = Inr s' \<and>
         tokenize ''a # ! b'' = Inr (tokens s') \<and>
         cerr s' = [(1, CHR ''#''), (1, CHR ''!'')] \<and>
         tok_type (last (tokens s')) = TOK_EOF)
   \<and> tokenize [DQUOTE, CHR ''a'', NEWLINE] = Inl (UnterminatedString 2)"
proof
  have v: "reference_scan InCode 1 ''a # ! b'' = (False, [(1, CHR ''#''), (1, CHR ''!'')])"
    by code_simp
  from scanner_total [of "''a # ! b''"] v
  show "\<exists>s'. scanTokens (Lexer_new ''a # ! b'') = Inr s' \<and>
         tokenize ''a # ! b'' = Inr (tokens s') \<and>
         cerr s' = [(1, CHR ''#''), (1, CHR ''!'')] \<and>
         tok_type (last (tokens s')) = TOK_EOF"
    by auto
next
  have v: "fst (reference_scan InCode 1 [DQUOTE, CHR ''a'', NEWLINE])"
    "count_newlines [DQUOTE, CHR ''a'', NEWLINE] = 1"
    by code_simp+
  from scanner_total [of "[DQUOTE, CHR ''a'', NEWLINE]"] v
  show "tokenize [DQUOTE, CHR ''a'', NEWLINE] = Inl (UnterminatedString 2)"
    by simp
qed

theorem string_literal_scan_witness:
  "scanToken (Lexer_new [DQUOTE, CHR 0x5C, CHR ''n'', DQUOTE]) =
     Inr ((Lexer_new [DQUOTE, CHR 0x5C, CHR ''n'', DQUOTE])
            \<lparr>tokens := [mkToken TOK_STRING_LITERAL [CHR 0x5C, CHR ''n''] 1],
             current := 4, line := 1\<rparr>)
   \<and> scanToken (Lexer_new [DQUOTE, CHR ''a'', NEWLINE]) = Inl (UnterminatedString 2)"
proof
  have a: "\<not> isAtEnd (Lexer_new [DQUOTE, CHR 0x5C, CHR ''n'', DQUOTE])"
    "source (Lexer_new [DQUOTE, CHR 0x5C, CHR ''n'', DQUOTE]) !
       current (Lexer_new [DQUOTE, CHR 0x5C, CHR ''n'', DQUOTE]) = DQUOTE"
    by (simp_all add: Lexer_new_def isAtEnd_def)
  from string_literal_scan [OF a]
  show "scanToken (Lexer_new [DQUOTE, CHR 0x5C, CHR ''n'', DQUOTE]) =
     Inr ((Lexer_new [DQUOTE, CHR 0x5C, CHR ''n'', DQUOTE])
            \<lparr>tokens := [mkToken TOK_STRING_LITERAL [CHR 0x5C, CHR ''n''] 1],
             current := 4, line := 1\<rparr>)"
    by (simp add: Lexer_new_def Let_def DQUOTE_def NEWLINE_def count_newlines_def)
next
  have b: "\<not> isAtEnd (Lexer_new [DQUOTE, CHR ''a'', NEWLINE])"
    "source (Lexer_new [DQUOTE, CHR ''a'', NEWLINE]) !
       current (Lexer_new [DQUOTE, CHR ''a'', NEWLINE]) = DQUOTE"
    by (simp_all add: Lexer_new_def isAtEnd_def)
  from string_literal_scan [OF b]
  show "scanToken (Lexer_new [DQUOTE, CHR ''a'', NEWLINE]) = Inl (UnterminatedString 2)"
    by (simp add: Lexer_new_def Let_def DQUOTE_def NEWLINE_def count_newlines_def)
qed

subsection \<open>Variable references\<close>

text \<open>
  Claim C10. Lowering a reference to a name that the symbol environment does not hold
  raises the unknown-variable error, and the environment that is left holds a null
  binding for the name: \<open>NamedValues[Name]\<close> has inserted it before the test, so the
  environment is not the one the method was given.
\<close>

theorem unknown_variable_inserts_null:
  assumes "NamedValues s nm = None"
  shows "codegen (VariableExprAST nm) s =
           (Inl (UnknownVariableName nm), s\<lparr>NamedValues := (NamedValues s)(nm \<mapsto> None)\<rparr>)
         \<and> NamedValues (snd (codegen (VariableExprAST nm) s)) nm = Some None
         \<and> snd (codegen (VariableExprAST nm) s) \<noteq> s"
proof -
  let ?s' = "s\<lparr>NamedValues := (NamedValues s)(nm \<mapsto> None)\<rparr>"
  have eq: "codegen (VariableExprAST nm) s = (Inl (UnknownVariableName nm), ?s')"
    using assms
    by (simp add: codegen.simps VariableExprAST_codegen_def NamedValues_subscript_def)
  have "NamedValues ?s' nm \<noteq> NamedValues s nm"
    using assms by simp
  then have "?s' \<noteq> s"
    by metis
  with eq show ?thesis
    by simp
qed

text \<open>The theorem at the empty environment and the name \<open>x\<close>.\<close>

theorem unknown_variable_inserts_null_witness:
  "NamedValues initial_state ''x'' = None
   \<and> codegen (VariableExprAST ''x'') initial_state =
       (Inl (UnknownVariableName ''x''),
        initial_state\<lparr>NamedValues := (NamedValues initial_state)(''x'' \<mapsto> None)\<rparr>)
   \<and> NamedValues (snd (codegen (VariableExprAST ''x'') initial_state)) ''x'' = Some None
   \<and> snd (codegen (VariableExprAST ''x'') initial_state) \<noteq> initial_state"
  using unknown_variable_inserts_null [of initial_state "''x''"]
  by (simp add: initial_state_def)

subsection \<open>Verification of a function\<close>

text \<open>
  Claim C5. The method calls \<open>llvm::verifyFunction(*F)\<close> and drops what it returns: the
  result of lowering a function, and the module that is left, are the same whatever the
  verifier answers, so that a failed verification cannot stop the compilation.
\<close>

theorem verification_result_dropped:
  "FunctionAST_codegen verifyFunction fn s = FunctionAST_codegen (\<lambda>m F. False) fn s"
  unfolding FunctionAST_codegen_def Let_def by (rule refl)

text \<open>
  With a verifier that reports every function broken, \<open>fn f() -> u32 { }\<close> is lowered
  without an error, to a function whose entry block is empty (it has no terminator), and
  the loop of the driver over the functions ends without an error.
\<close>

theorem verification_failure_not_fatal:
  "fst (FunctionAST_codegen (\<lambda>m F. True)
          \<lparr>Name = ''f'', Args = [], ReturnType = ''u32'', Body = [],
            isExtern = False, isExport = False\<rparr> initial_state) = Inr 0
   \<and> insts (snd (FunctionAST_codegen (\<lambda>m F. True)
          \<lparr>Name = ''f'', Args = [], ReturnType = ''u32'', Body = [],
            isExtern = False, isExport = False\<rparr> initial_state)) 0 = []
   \<and> fst (codegen_functions (\<lambda>m F. True)
          [\<lparr>Name = ''f'', Args = [], ReturnType = ''u32'', Body = [],
            isExtern = False, isExport = False\<rparr>] initial_state) = None"
  by code_simp

subsection \<open>Linkage\<close>



subsection \<open>Signedness of the comparisons\<close>



end
